theory Spec2Isabelle
  imports Main
begin

unbundle bit_operations_syntax

section \<open>Data model\<close>

text \<open>
  The program works on LLVM's \<^verbatim>\<open>APInt\<close> and \<^verbatim>\<open>KnownBits\<close>. An \<^verbatim>\<open>APInt\<close> is an
  unsigned value stored together with its run-time bit width; every operation clears
  the bits at and above the width. A \<^verbatim>\<open>KnownBits\<close> is a pair of \<^verbatim>\<open>APInt\<close> masks,
  \<^verbatim>\<open>Zero\<close> and \<^verbatim>\<open>One\<close>. The field names carry a suffix because \<open>One\<close> is already a
  constant of HOL.

  The 64-bit counters of the program (\<^verbatim>\<open>uint64_t total\<close> in the enumeration and in
  the concretization, the four result counters) are natural numbers with the
  wrap-around written out. Bit widths and bit positions, \<^verbatim>\<open>unsigned\<close> in the source,
  are natural numbers; the arithmetic on them (\<^verbatim>\<open>2 * bw\<close> in \<^verbatim>\<open>naiveMulhs\<close>, the sum
  inside \<^verbatim>\<open>extractBits\<close>) wraps at \<open>2 ^ 32\<close>.

  \<^verbatim>\<open>sext\<close> and \<^verbatim>\<open>extractBits\<close>, whose arguments come out of that arithmetic, end
  with an error where LLVM's assertion on them fails. The other operations of \<^verbatim>\<open>APInt\<close>
  are called with arguments that meet their preconditions (a bit position below the
  width, equal widths for \<^verbatim>\<open>&=\<close> and \<^verbatim>\<open>*\<close>) and are given by their values.

  \<^verbatim>\<open>result.reserve(total)\<close> in the enumeration ends the function when it cannot
  provide room for \<^verbatim>\<open>total\<close> elements: with \<^verbatim>\<open>std::length_error\<close> when the count
  exceeds \<^verbatim>\<open>max_size()\<close> of the vector, with \<^verbatim>\<open>std::bad_alloc\<close> when the memory is
  not there. The largest count it grants is the parameter \<open>reserve_limit\<close> of the
  model. Beyond that call, storage and time are unbounded.

  The repository has two source files. testMulhs.cpp is the program; main.cpp holds
  earlier copies of \<^verbatim>\<open>enumerateFromBitWidth\<close>, \<^verbatim>\<open>concretization\<close> and
  \<^verbatim>\<open>abstraction\<close> and a \<^verbatim>\<open>main\<close> that calls none of them. The copies of
  \<^verbatim>\<open>concretization\<close> are the same text; the other two differ and are modelled
  separately, with the suffix \<open>_main\<close>.
\<close>

record APInt =
  BitWidth :: nat
  VAL :: nat

record KnownBits =
  Zero_bits :: APInt
  One_bits :: APInt

datatype error =
    AssertValuesEmpty       \<comment> \<open>"Values set should not be empty"\<close>
  | AssertSameBitwidth      \<comment> \<open>"All values must have the same bitwidth"\<close>
  | AssertOperandBitwidth   \<comment> \<open>"RHS and LHS must have the same bitwidth"\<close>
  | AssertNoConflict        \<comment> \<open>"Known 0s and 1s should not conflict"\<close>
  | AssertSignExtend        \<comment> \<open>"Invalid APInt SignExtend request"\<close>
  | AssertExtractBits       \<comment> \<open>"Illegal bit extraction"\<close>
  | ReserveFailed           \<comment> \<open>\<^verbatim>\<open>std::length_error\<close> or \<^verbatim>\<open>std::bad_alloc\<close> from \<^verbatim>\<open>reserve\<close>\<close>
  | ShiftOutOfRange         \<comment> \<open>\<^verbatim>\<open>1ull << n\<close> with \<open>n \<ge> 64\<close> has no defined value\<close>
  | UncaughtOutOfRange      \<comment> \<open>\<^verbatim>\<open>std::out_of_range\<close> leaving \<^verbatim>\<open>main\<close>\<close>

subsection \<open>The operations of \<^verbatim>\<open>APInt\<close> that the program calls\<close>

definition APInt_of :: "nat \<Rightarrow> nat \<Rightarrow> APInt" where
  "APInt_of numBits val = \<lparr>BitWidth = numBits, VAL = take_bit numBits val\<rparr>"

definition getAllOnes :: "nat \<Rightarrow> APInt" where
  "getAllOnes numBits = \<lparr>BitWidth = numBits, VAL = mask numBits\<rparr>"

definition setBit :: "APInt \<Rightarrow> nat \<Rightarrow> APInt" where
  "setBit a bitPosition = a\<lparr>VAL := set_bit bitPosition (VAL a)\<rparr>"

definition clearBit :: "APInt \<Rightarrow> nat \<Rightarrow> APInt" where
  "clearBit a bitPosition = a\<lparr>VAL := unset_bit bitPosition (VAL a)\<rparr>"

definition testBit :: "APInt \<Rightarrow> nat \<Rightarrow> bool" where
  "testBit a bitPosition = bit (VAL a) bitPosition"

definition APInt_not :: "APInt \<Rightarrow> APInt" where
  "APInt_not a = a\<lparr>VAL := take_bit (BitWidth a) (VAL a XOR mask (BitWidth a))\<rparr>"

definition APInt_and :: "APInt \<Rightarrow> APInt \<Rightarrow> APInt" where
  "APInt_and a b = a\<lparr>VAL := VAL a AND VAL b\<rparr>"

definition countPopulation :: "APInt \<Rightarrow> nat" where
  "countPopulation a = length (filter (bit (VAL a)) [0..<BitWidth a])"

definition getSExtValue :: "APInt \<Rightarrow> int" where
  "getSExtValue a = signed_take_bit (BitWidth a - 1) (int (VAL a))"

text \<open>\<^verbatim>\<open>sext\<close> asserts that the new width is not below the old one.\<close>

definition sext :: "APInt \<Rightarrow> nat \<Rightarrow> error + APInt" where
  "sext a width =
     (if width < BitWidth a then Inl AssertSignExtend
      else Inr \<lparr>BitWidth = width, VAL = nat (take_bit width (getSExtValue a))\<rparr>)"

definition APInt_mul :: "APInt \<Rightarrow> APInt \<Rightarrow> APInt" where
  "APInt_mul a b = a\<lparr>VAL := take_bit (BitWidth a) (VAL a * VAL b)\<rparr>"

text \<open>
  \<^verbatim>\<open>extractBits\<close> asserts
  \<^verbatim>\<open>bitPosition < BitWidth && (numBits + bitPosition) <= BitWidth\<close>.
\<close>

definition extractBits :: "APInt \<Rightarrow> nat \<Rightarrow> nat \<Rightarrow> error + APInt" where
  "extractBits a numBits bitPosition =
     (if bitPosition < BitWidth a \<and> (numBits + bitPosition) mod 2 ^ 32 \<le> BitWidth a
      then Inr \<lparr>BitWidth = numBits, VAL = take_bit numBits (drop_bit bitPosition (VAL a))\<rparr>
      else Inl AssertExtractBits)"

text \<open>The class invariant of \<^verbatim>\<open>APInt\<close>: no bit at or above the width is set.\<close>

definition APInt_ok :: "APInt \<Rightarrow> bool" where
  "APInt_ok a = (VAL a < 2 ^ BitWidth a)"

subsection \<open>\<^verbatim>\<open>KnownBits\<close>\<close>

definition KnownBits_of :: "nat \<Rightarrow> KnownBits" where
  "KnownBits_of bitWidth = \<lparr>Zero_bits = APInt_of bitWidth 0, One_bits = APInt_of bitWidth 0\<rparr>"

definition getBitWidth :: "KnownBits \<Rightarrow> nat" where
  "getBitWidth kb = BitWidth (Zero_bits kb)"

definition hasConflict :: "KnownBits \<Rightarrow> bool" where
  "hasConflict kb = (VAL (APInt_and (Zero_bits kb) (One_bits kb)) \<noteq> 0)"

text \<open>
  An abstract state of width \<open>w\<close>: both masks are \<^verbatim>\<open>APInt\<close>s of width \<open>w\<close>.
\<close>

definition KnownBits_ok :: "nat \<Rightarrow> KnownBits \<Rightarrow> bool" where
  "KnownBits_ok w kb =
     (BitWidth (Zero_bits kb) = w \<and> BitWidth (One_bits kb) = w \<and>
      APInt_ok (Zero_bits kb) \<and> APInt_ok (One_bits kb))"

text \<open>
  A concrete value is consistent with a state when every bit the state marks Zero is
  clear in the value and every bit it marks One is set in it.
\<close>

definition consistent :: "APInt \<Rightarrow> KnownBits \<Rightarrow> bool" where
  "consistent v kb =
     (list_all (\<lambda>i. (testBit (Zero_bits kb) i \<longrightarrow> \<not> testBit v i) \<and>
                    (testBit (One_bits kb) i \<longrightarrow> testBit v i))
        [0..<getBitWidth kb])"

section \<open>Abstraction\<close>

text \<open>
  The loop of \<^verbatim>\<open>abstraction\<close>, shared by both source files: each value is checked
  against the width of the first one and folded into the two accumulators.
\<close>

fun abstraction_loop :: "nat \<Rightarrow> APInt list \<Rightarrow> APInt \<Rightarrow> APInt \<Rightarrow> error + KnownBits" where
  "abstraction_loop bw [] knownZero knownOne =
     Inr ((KnownBits_of bw)\<lparr>Zero_bits := knownZero, One_bits := knownOne\<rparr>)"
| "abstraction_loop bw (v # values) knownZero knownOne =
     (if BitWidth v \<noteq> bw then Inl AssertSameBitwidth
      else abstraction_loop bw values
             (APInt_and knownZero (APInt_not v)) (APInt_and knownOne v))"

text \<open>\<^verbatim>\<open>abstraction\<close> of testMulhs.cpp: both accumulators start from all ones.\<close>

definition abstraction :: "APInt list \<Rightarrow> error + KnownBits" where
  "abstraction values =
     (case values of
        [] \<Rightarrow> Inl AssertValuesEmpty
      | v # _ \<Rightarrow>
          (let bw = BitWidth v
           in abstraction_loop bw values (getAllOnes bw) (getAllOnes bw)))"

text \<open>\<^verbatim>\<open>abstraction\<close> of main.cpp: \<^verbatim>\<open>knownZero\<close> starts from \<^verbatim>\<open>APInt(bw, 0x0, false)\<close>.\<close>

definition abstraction_main :: "APInt list \<Rightarrow> error + KnownBits" where
  "abstraction_main values =
     (case values of
        [] \<Rightarrow> Inl AssertValuesEmpty
      | v # _ \<Rightarrow>
          (let bw = BitWidth v
           in abstraction_loop bw values (APInt_of bw 0) (getAllOnes bw)))"

section \<open>Enumeration of the abstract states\<close>

text \<open>
  \<^verbatim>\<open>uint64_t total = 1; for (i = 0; i < bitWidth; i++) total *= 3;\<close> The first
  argument counts the iterations that remain; the product wraps at \<open>2 ^ 64\<close>.
\<close>

fun total_loop :: "nat \<Rightarrow> nat \<Rightarrow> nat" where
  "total_loop 0 total' = total'"
| "total_loop (Suc n) total' = total_loop n ((total' * 3) mod 2 ^ 64)"

text \<open>One round of the inner loop: the base-3 digit of \<^verbatim>\<open>temp\<close> decides bit \<open>b\<close>.\<close>

definition enumerate_digit :: "nat \<Rightarrow> nat \<times> KnownBits \<Rightarrow> nat \<times> KnownBits" where
  "enumerate_digit b s =
     (case s of (temp, kb) \<Rightarrow>
        (let digit = temp mod 3; temp' = temp div 3
         in (temp',
             if digit = 0 then kb\<lparr>Zero_bits := setBit (Zero_bits kb) b\<rparr>
             else if digit = 1 then kb\<lparr>One_bits := setBit (One_bits kb) b\<rparr>
             else kb)))"

definition enumerate_state :: "nat \<Rightarrow> nat \<Rightarrow> KnownBits" where
  "enumerate_state bitWidth i =
     snd (fold enumerate_digit [0..<bitWidth] (i, KnownBits_of bitWidth))"

text \<open>The loop over \<open>i\<close> of testMulhs.cpp, with its assertion before each \<^verbatim>\<open>push_back\<close>.\<close>

fun enumerate_loop :: "nat \<Rightarrow> nat list \<Rightarrow> error + KnownBits list" where
  "enumerate_loop bitWidth [] = Inr []"
| "enumerate_loop bitWidth (i # rest) =
     (let kb = enumerate_state bitWidth i
      in if hasConflict kb then Inl AssertNoConflict
         else (case enumerate_loop bitWidth rest of
                 Inl e \<Rightarrow> Inl e
               | Inr result \<Rightarrow> Inr (kb # result)))"

text \<open>
  \<^verbatim>\<open>enumerateFromBitWidth\<close> of testMulhs.cpp: the count, \<^verbatim>\<open>result.reserve(total)\<close>,
  then the loop.
\<close>

definition enumerateFromBitWidth :: "nat \<Rightarrow> nat \<Rightarrow> error + KnownBits list" where
  "enumerateFromBitWidth reserve_limit bitWidth =
     (let total = total_loop bitWidth 1
      in if reserve_limit < total then Inl ReserveFailed
         else enumerate_loop bitWidth [0..<total])"

text \<open>
  The copy in main.cpp has no assertion, and its loop variable is declared without an
  initial value (\<^verbatim>\<open>for (uint64_t i; i < total; i++)\<close>); the value it starts from is
  the parameter \<open>i0\<close>.
\<close>

definition enumerateFromBitWidth_main :: "nat \<Rightarrow> nat \<Rightarrow> nat \<Rightarrow> error + KnownBits list" where
  "enumerateFromBitWidth_main reserve_limit i0 bitWidth =
     (let total = total_loop bitWidth 1
      in if reserve_limit < total then Inl ReserveFailed
         else Inr (map (enumerate_state bitWidth) [i0..<total]))"

section \<open>Concretization\<close>

definition unknownIndexes :: "KnownBits \<Rightarrow> nat list" where
  "unknownIndexes kb =
     filter (\<lambda>i. \<not> testBit (Zero_bits kb) i \<and> \<not> testBit (One_bits kb) i)
       [0..<getBitWidth kb]"

text \<open>One round of the inner loop: the low bit of \<^verbatim>\<open>temp\<close> decides one unknown bit.\<close>

definition concretize_bit :: "nat \<Rightarrow> nat \<times> APInt \<Rightarrow> nat \<times> APInt" where
  "concretize_bit unknownIdx s =
     (case s of (temp, ap) \<Rightarrow>
        (temp div 2,
         if temp AND 1 \<noteq> 0 then setBit ap unknownIdx else clearBit ap unknownIdx))"

definition concretize_value :: "KnownBits \<Rightarrow> nat list \<Rightarrow> nat \<Rightarrow> APInt" where
  "concretize_value kb idxs i = snd (fold concretize_bit idxs (i, One_bits kb))"

text \<open>
  \<^verbatim>\<open>uint64_t total = 1ull << unknownIndexes.size();\<close> A shift of a 64-bit value by 64
  or more has no defined result in C++, so the model stops there with an error.
\<close>

definition concretization :: "KnownBits \<Rightarrow> error + APInt list" where
  "concretization kb =
     (let idxs = unknownIndexes kb
      in if 64 \<le> length idxs then Inl ShiftOutOfRange
         else (let total = push_bit (length idxs) (1::nat)
               in Inr (map (concretize_value kb idxs) [0..<total])))"

section \<open>The brute-force transfer function\<close>

text \<open>
  The body of the inner loop of \<^verbatim>\<open>naiveMulhs\<close>, for one pair of concrete values.
  \<^verbatim>\<open>2 * bw\<close> is a product of \<^verbatim>\<open>unsigned\<close> values.
\<close>

definition mulhs_highBits :: "nat \<Rightarrow> APInt \<Rightarrow> APInt \<Rightarrow> error + APInt" where
  "mulhs_highBits bw cLhs cRhs =
     (case sext cLhs ((2 * bw) mod 2 ^ 32) of
        Inl e \<Rightarrow> Inl e
      | Inr wideLhs \<Rightarrow>
          (case sext cRhs ((2 * bw) mod 2 ^ 32) of
             Inl e \<Rightarrow> Inl e
           | Inr wideRhs \<Rightarrow>
               (let prod = APInt_mul wideLhs wideRhs
                in extractBits prod bw bw)))"

text \<open>The two nested loops, which append to \<^verbatim>\<open>cfResult\<close>.\<close>

fun mulhs_inner :: "nat \<Rightarrow> APInt \<Rightarrow> APInt list \<Rightarrow> APInt list \<Rightarrow> error + APInt list" where
  "mulhs_inner bw cLhs [] cfResult = Inr cfResult"
| "mulhs_inner bw cLhs (cRhs # rest) cfResult =
     (case mulhs_highBits bw cLhs cRhs of
        Inl e \<Rightarrow> Inl e
      | Inr highBits \<Rightarrow> mulhs_inner bw cLhs rest (cfResult @ [highBits]))"

fun mulhs_outer :: "nat \<Rightarrow> APInt list \<Rightarrow> APInt list \<Rightarrow> APInt list \<Rightarrow> error + APInt list" where
  "mulhs_outer bw [] concreteRhs cfResult = Inr cfResult"
| "mulhs_outer bw (cLhs # rest) concreteRhs cfResult =
     (case mulhs_inner bw cLhs concreteRhs cfResult of
        Inl e \<Rightarrow> Inl e
      | Inr cfResult' \<Rightarrow> mulhs_outer bw rest concreteRhs cfResult')"

definition naiveMulhs :: "KnownBits \<Rightarrow> KnownBits \<Rightarrow> error + KnownBits" where
  "naiveMulhs lhs rhs =
     (let bw = getBitWidth lhs
      in if bw \<noteq> getBitWidth rhs then Inl AssertOperandBitwidth
         else (case concretization lhs of
                 Inl e \<Rightarrow> Inl e
               | Inr concreteLhs \<Rightarrow>
                   (case concretization rhs of
                      Inl e \<Rightarrow> Inl e
                    | Inr concreteRhs \<Rightarrow>
                        (case mulhs_outer bw concreteLhs concreteRhs [] of
                           Inl e \<Rightarrow> Inl e
                         | Inr cfResult \<Rightarrow> abstraction cfResult))))"

section \<open>The comparison engine\<close>

record Counters =
  compositeMorePrecise :: nat
  naiveMorePrecise :: nat
  samePrecision :: nat
  incomparableResults :: nat

text \<open>\<^verbatim>\<open>++\<close> on a \<^verbatim>\<open>uint64_t\<close> counter.\<close>

definition incr64 :: "nat \<Rightarrow> nat" where
  "incr64 n = (n + 1) mod 2 ^ 64"

text \<open>
  The loop over \<open>k\<close> that stops at the first contradicting bit. \<open>k\<close> is an \<^verbatim>\<open>int\<close>
  compared with the \<^verbatim>\<open>unsigned\<close> width; for widths below \<open>2 ^ 31\<close> it runs over the
  bit positions below the width.
\<close>

fun isIncomparable :: "nat list \<Rightarrow> KnownBits \<Rightarrow> KnownBits \<Rightarrow> bool" where
  "isIncomparable [] composite naive = False"
| "isIncomparable (k # ks) composite naive =
     (if (testBit (Zero_bits composite) k \<and> testBit (One_bits naive) k) \<or>
         (testBit (One_bits composite) k \<and> testBit (Zero_bits naive) k)
      then True
      else isIncomparable ks composite naive)"

text \<open>
  One pair's comparison. The two precision sums are \<^verbatim>\<open>unsigned\<close>.
\<close>

definition compare_pair :: "nat \<Rightarrow> KnownBits \<Rightarrow> KnownBits \<Rightarrow> Counters \<Rightarrow> Counters" where
  "compare_pair BitWidth' composite naive c =
     (if isIncomparable [0..<BitWidth'] composite naive
      then c\<lparr>incomparableResults := incr64 (incomparableResults c)\<rparr>
      else (let compositePrecision =
                  (countPopulation (Zero_bits composite) + countPopulation (One_bits composite))
                    mod 2 ^ 32;
                naivePrecision =
                  (countPopulation (Zero_bits naive) + countPopulation (One_bits naive))
                    mod 2 ^ 32
            in if compositePrecision > naivePrecision
               then c\<lparr>compositeMorePrecise := incr64 (compositeMorePrecise c)\<rparr>
               else if naivePrecision > compositePrecision
               then c\<lparr>naiveMorePrecise := incr64 (naiveMorePrecise c)\<rparr>
               else c\<lparr>samePrecision := incr64 (samePrecision c)\<rparr>))"

text \<open>
  The two nested loops over all pairs. \<^verbatim>\<open>KnownBits::mulhs\<close> belongs to LLVM and is
  the parameter \<open>mulhs\<close>. The timing sums are not part of the model.
\<close>

fun inner_loop ::
  "(KnownBits \<Rightarrow> KnownBits \<Rightarrow> KnownBits) \<Rightarrow> nat \<Rightarrow> KnownBits \<Rightarrow> KnownBits list \<Rightarrow>
   Counters \<Rightarrow> error + Counters" where
  "inner_loop mulhs bw LHS [] c = Inr c"
| "inner_loop mulhs bw LHS (RHS # rest) c =
     (let composite = mulhs LHS RHS
      in case naiveMulhs LHS RHS of
           Inl e \<Rightarrow> Inl e
         | Inr naive \<Rightarrow> inner_loop mulhs bw LHS rest (compare_pair bw composite naive c))"

fun outer_loop ::
  "(KnownBits \<Rightarrow> KnownBits \<Rightarrow> KnownBits) \<Rightarrow> nat \<Rightarrow> KnownBits list \<Rightarrow> KnownBits list \<Rightarrow>
   Counters \<Rightarrow> error + Counters" where
  "outer_loop mulhs bw allKnownBits [] c = Inr c"
| "outer_loop mulhs bw allKnownBits (LHS # rest) c =
     (case inner_loop mulhs bw LHS allKnownBits c of
        Inl e \<Rightarrow> Inl e
      | Inr c' \<Rightarrow> outer_loop mulhs bw allKnownBits rest c')"

record Report =
  reportBitWidth :: nat
  totalKnownBits :: nat
  counters :: Counters

definition testMulhsTransferFunctions ::
  "nat \<Rightarrow> (KnownBits \<Rightarrow> KnownBits \<Rightarrow> KnownBits) \<Rightarrow> nat \<Rightarrow> error + Report" where
  "testMulhsTransferFunctions reserve_limit mulhs BitWidth' =
     (case enumerateFromBitWidth reserve_limit BitWidth' of
        Inl e \<Rightarrow> Inl e
      | Inr allKnownBits \<Rightarrow>
          (case outer_loop mulhs BitWidth' allKnownBits allKnownBits
                  \<lparr>compositeMorePrecise = 0, naiveMorePrecise = 0,
                   samePrecision = 0, incomparableResults = 0\<rparr> of
             Inl e \<Rightarrow> Inl e
           | Inr c \<Rightarrow>
               Inr \<lparr>reportBitWidth = BitWidth', totalKnownBits = length allKnownBits,
                    counters = c\<rparr>))"

section \<open>The command line\<close>








section \<open>Notions of the specification\<close>

text \<open>The number of Unknown bits of a state.\<close>

definition unknownCount :: "KnownBits \<Rightarrow> nat" where
  "unknownCount kb = length (unknownIndexes kb)"

text \<open>
  Signed high multiplication as arithmetic: the operands are read as two's-complement
  numbers, multiplied as integers, and the product is divided by \<open>2 ^ w\<close> (rounding
  down) and reduced to \<open>w\<close> bits.
\<close>

definition mulhs_exact :: "nat \<Rightarrow> APInt \<Rightarrow> APInt \<Rightarrow> APInt" where
  "mulhs_exact w a b =
     \<lparr>BitWidth = w,
      VAL = nat ((getSExtValue a * getSExtValue b) div 2 ^ w mod 2 ^ w)\<rparr>"

text \<open>The round trip \<^verbatim>\<open>abstraction(concretization(s))\<close>.\<close>

definition abstraction_of_concretization :: "KnownBits \<Rightarrow> error + KnownBits" where
  "abstraction_of_concretization s =
     (case concretization s of Inl e \<Rightarrow> Inl e | Inr vs \<Rightarrow> abstraction vs)"

text \<open>
  The verdict on one operand pair, in the words of the specification: a contradiction
  on some bit below the width makes the pair Incomparable; otherwise the precision
  counts decide.
\<close>

datatype verdict = NaivePreciser | ReferencePreciser | EqualPrecision | Incomparable

definition precisionCount :: "KnownBits \<Rightarrow> nat" where
  "precisionCount kb = countPopulation (Zero_bits kb) + countPopulation (One_bits kb)"

definition contradicts :: "nat \<Rightarrow> KnownBits \<Rightarrow> KnownBits \<Rightarrow> bool" where
  "contradicts w reference naive =
     (\<exists>k \<in> {0..<w}. (testBit (Zero_bits reference) k \<and> testBit (One_bits naive) k) \<or>
                     (testBit (One_bits reference) k \<and> testBit (Zero_bits naive) k))"

definition verdict_of :: "nat \<Rightarrow> KnownBits \<Rightarrow> KnownBits \<Rightarrow> verdict" where
  "verdict_of w reference naive =
     (if contradicts w reference naive then Incomparable
      else if precisionCount reference > precisionCount naive then ReferencePreciser
      else if precisionCount naive > precisionCount reference then NaivePreciser
      else EqualPrecision)"

definition counter_sum :: "Counters \<Rightarrow> nat" where
  "counter_sum c =
     compositeMorePrecise c + naiveMorePrecise c + samePrecision c + incomparableResults c"

text \<open>
  The verdict on the operand pair \<open>p\<close> in a run: the result of the reference function
  against the result of \<^verbatim>\<open>naiveMulhs\<close>, where the latter returns one. \<open>verdict_count\<close>
  is the number of ordered pairs of states from a list that get a given verdict.
\<close>

definition pair_verdict ::
  "(KnownBits \<Rightarrow> KnownBits \<Rightarrow> KnownBits) \<Rightarrow> nat \<Rightarrow> KnownBits \<times> KnownBits \<Rightarrow> verdict option" where
  "pair_verdict mulhs w p =
     (case naiveMulhs (fst p) (snd p) of
        Inl e \<Rightarrow> None
      | Inr naive \<Rightarrow> Some (verdict_of w (mulhs (fst p) (snd p)) naive))"

definition verdict_count ::
  "(KnownBits \<Rightarrow> KnownBits \<Rightarrow> KnownBits) \<Rightarrow> nat \<Rightarrow> (KnownBits \<times> KnownBits) list \<Rightarrow> verdict \<Rightarrow> nat"
  where
  "verdict_count mulhs w ps v = length (filter (\<lambda>p. pair_verdict mulhs w p = Some v) ps)"

text \<open>The counters after the pairs \<open>ps\<close>: each verdict's count, reduced modulo \<open>2 ^ 64\<close>.\<close>

definition wrap64 :: "nat \<Rightarrow> nat" where
  "wrap64 n = n mod 2 ^ 64"

definition tallied ::
  "(KnownBits \<Rightarrow> KnownBits \<Rightarrow> KnownBits) \<Rightarrow> nat \<Rightarrow> (KnownBits \<times> KnownBits) list \<Rightarrow> Counters" where
  "tallied mulhs w ps =
     \<lparr>compositeMorePrecise = wrap64 (verdict_count mulhs w ps ReferencePreciser),
      naiveMorePrecise = wrap64 (verdict_count mulhs w ps NaivePreciser),
      samePrecision = wrap64 (verdict_count mulhs w ps EqualPrecision),
      incomparableResults = wrap64 (verdict_count mulhs w ps Incomparable)\<rparr>"


text \<open>
  A stand-in for the reference transfer function where a concrete one is needed: it
  returns the state of width \<open>w\<close> in which every bit is Unknown.
\<close>

definition mulhs_unknown :: "nat \<Rightarrow> KnownBits \<Rightarrow> KnownBits \<Rightarrow> KnownBits" where
  "mulhs_unknown w LHS RHS = KnownBits_of w"

text \<open>The signed high products of all pairs, in the order of the two loops.\<close>

definition mulhs_results :: "nat \<Rightarrow> APInt list \<Rightarrow> APInt list \<Rightarrow> APInt list" where
  "mulhs_results bw concreteLhs concreteRhs =
     concat (map (\<lambda>cLhs. map (mulhs_exact bw cLhs) concreteRhs) concreteLhs)"

text \<open>The state of width \<open>n\<close> in which every bit is known to be zero.\<close>

definition known_zero :: "nat \<Rightarrow> KnownBits" where
  "known_zero n = \<lparr>Zero_bits = getAllOnes n, One_bits = APInt_of n 0\<rparr>"

text \<open>The masks that the loop of \<^verbatim>\<open>abstraction\<close> leaves behind, as folds.\<close>

definition abstract_masks :: "APInt list \<Rightarrow> APInt \<Rightarrow> KnownBits" where
  "abstract_masks vs kz =
     \<lparr>Zero_bits = fold (\<lambda>v z. APInt_and z (APInt_not v)) vs kz,
      One_bits = fold (\<lambda>v z. APInt_and z v) vs (getAllOnes (BitWidth (hd vs)))\<rparr>"

section \<open>Facts about the masks\<close>

lemma abstraction_loop_Inr:
  "\<forall>v \<in> set values. BitWidth v = bw \<Longrightarrow>
   abstraction_loop bw values kz ko =
     Inr \<lparr>Zero_bits = fold (\<lambda>v z. APInt_and z (APInt_not v)) values kz,
          One_bits = fold (\<lambda>v z. APInt_and z v) values ko\<rparr>"
  by (induction "values" arbitrary: kz ko) (simp_all add: KnownBits_of_def)

lemma abstraction_loop_Inl:
  "\<exists>v \<in> set values. BitWidth v \<noteq> bw \<Longrightarrow>
   abstraction_loop bw values kz ko = Inl AssertSameBitwidth"
  by (induction "values" arbitrary: kz ko) auto

lemma BitWidth_fold_and [simp]:
  "BitWidth (fold (\<lambda>v z. APInt_and z (f v)) values a) = BitWidth a"
  by (induction "values" arbitrary: a) (simp_all add: APInt_and_def)

lemma bit_fold_and:
  "bit (VAL (fold (\<lambda>v z. APInt_and z (f v)) values a)) i \<longleftrightarrow>
   bit (VAL a) i \<and> (\<forall>v \<in> set values. bit (VAL (f v)) i)"
  by (induction "values" arbitrary: a) (auto simp: APInt_and_def bit_and_iff)

lemma bit_APInt_not:
  "bit (VAL (APInt_not v)) i \<longleftrightarrow> i < BitWidth v \<and> \<not> bit (VAL v) i"
  by (auto simp: APInt_not_def bit_take_bit_iff bit_xor_iff bit_mask_iff)

lemma bit_getAllOnes: "bit (VAL (getAllOnes n)) i \<longleftrightarrow> i < n"
  by (simp add: getAllOnes_def bit_mask_iff)

lemma abstraction_Inr:
  assumes "vs \<noteq> []" and "\<forall>v \<in> set vs. BitWidth v = BitWidth (hd vs)"
  shows "abstraction vs = Inr (abstract_masks vs (getAllOnes (BitWidth (hd vs))))"
    and "abstraction_main vs = Inr (abstract_masks vs (APInt_of (BitWidth (hd vs)) 0))"
proof -
  obtain v vs' where vs: "vs = v # vs'"
    using assms(1) by (cases vs) auto
  have loop: "abstraction_loop (BitWidth v) vs kz ko =
      Inr \<lparr>Zero_bits = fold (\<lambda>v z. APInt_and z (APInt_not v)) vs kz,
           One_bits = fold (\<lambda>v z. APInt_and z v) vs ko\<rparr>" for kz ko
    using assms(2) by (intro abstraction_loop_Inr) (simp add: vs)
  show "abstraction vs = Inr (abstract_masks vs (getAllOnes (BitWidth (hd vs))))"
    using loop [of "getAllOnes (BitWidth v)" "getAllOnes (BitWidth v)"]
    by (simp add: abstraction_def abstract_masks_def vs Let_def del: abstraction_loop.simps)
  show "abstraction_main vs = Inr (abstract_masks vs (APInt_of (BitWidth (hd vs)) 0))"
    using loop [of "APInt_of (BitWidth v) 0" "getAllOnes (BitWidth v)"]
    by (simp add: abstraction_main_def abstract_masks_def vs Let_def del: abstraction_loop.simps)
qed

lemma abstraction_Inr_D:
  assumes "abstraction vs = Inr kb \<or> abstraction_main vs = Inr kb"
  shows "vs \<noteq> [] \<and> (\<forall>v \<in> set vs. BitWidth v = BitWidth (hd vs))"
proof (cases vs)
  case Nil
  with assms show ?thesis
    by (simp add: abstraction_def abstraction_main_def)
next
  case (Cons v vs')
  have "\<forall>x \<in> set vs. BitWidth x = BitWidth v"
  proof (rule ccontr)
    assume "\<not> ?thesis"
    then have "abstraction_loop (BitWidth v) vs kz ko = Inl AssertSameBitwidth" for kz ko
      by (intro abstraction_loop_Inl) simp
    with assms show False
      by (simp add: abstraction_def abstraction_main_def Cons Let_def del: abstraction_loop.simps)
  qed
  with Cons show ?thesis by simp
qed

lemma testBit_abstract_masks:
  "testBit (Zero_bits (abstract_masks vs kz)) i \<longleftrightarrow>
     testBit kz i \<and> (\<forall>v \<in> set vs. i < BitWidth v \<and> \<not> testBit v i)"
  "testBit (One_bits (abstract_masks vs kz)) i \<longleftrightarrow>
     i < BitWidth (hd vs) \<and> (\<forall>v \<in> set vs. testBit v i)"
  by (auto simp: abstract_masks_def testBit_def bit_fold_and bit_APInt_not bit_getAllOnes)

lemma BitWidth_abstract_masks [simp]:
  "BitWidth (Zero_bits (abstract_masks vs kz)) = BitWidth kz"
  "BitWidth (One_bits (abstract_masks vs kz)) = BitWidth (hd vs)"
  by (simp_all add: abstract_masks_def getAllOnes_def)

lemma testBit_getAllOnes: "testBit (getAllOnes n) i \<longleftrightarrow> i < n"
  by (simp add: testBit_def bit_getAllOnes)

lemma abstraction_main_Zero:
  assumes "abstraction_main vs = Inr kb"
  shows "VAL (Zero_bits kb) = 0"
proof -
  have ne: "vs \<noteq> [] \<and> (\<forall>v \<in> set vs. BitWidth v = BitWidth (hd vs))"
    by (rule abstraction_Inr_D [of vs kb]) (use assms in blast)
  have "abstraction_main vs = Inr (abstract_masks vs (APInt_of (BitWidth (hd vs)) 0))"
    using ne by (intro abstraction_Inr(2)) blast+
  then have kb: "kb = abstract_masks vs (APInt_of (BitWidth (hd vs)) 0)"
    using assms by simp
  have "\<not> testBit (Zero_bits kb) i" for i
    unfolding kb testBit_abstract_masks(1) by (simp add: testBit_def APInt_of_def)
  then have "\<not> bit (VAL (Zero_bits kb)) i" for i
    by (simp add: testBit_def)
  then show ?thesis
    by (intro bit_eqI) simp
qed

lemma consistent_iff:
  "consistent v kb \<longleftrightarrow>
   (\<forall>i < getBitWidth kb. (testBit (Zero_bits kb) i \<longrightarrow> \<not> testBit v i) \<and>
                         (testBit (One_bits kb) i \<longrightarrow> testBit v i))"
  by (auto simp: consistent_def list_all_iff)

section \<open>The claims about abstraction\<close>

text \<open>
  C2. For a nonempty list \<open>S\<close> of values of one width \<open>w\<close>, \<^verbatim>\<open>abstraction\<close> of
  testMulhs.cpp returns a state of width \<open>w\<close>; every member of \<open>S\<close> is consistent
  with it; and below \<open>w\<close> a bit is marked Zero exactly when it is clear in every member
  and marked One exactly when it is set in every member.
\<close>

theorem abstraction_most_precise:
  assumes "S \<noteq> []" and "\<forall>v \<in> set S. BitWidth v = w"
  shows "\<exists>kb. abstraction S = Inr kb \<and>
              BitWidth (Zero_bits kb) = w \<and> BitWidth (One_bits kb) = w \<and>
              (\<forall>v \<in> set S. consistent v kb) \<and>
              (\<forall>i < w. (testBit (Zero_bits kb) i \<longleftrightarrow> (\<forall>v \<in> set S. \<not> testBit v i)) \<and>
                       (testBit (One_bits kb) i \<longleftrightarrow> (\<forall>v \<in> set S. testBit v i)))"
proof -
  have hd: "BitWidth (hd S) = w"
    using assms by (cases S) auto
  define kb where "kb = abstract_masks S (getAllOnes w)"
  have "abstraction S = Inr (abstract_masks S (getAllOnes (BitWidth (hd S))))"
    using assms by (intro abstraction_Inr(1)) (auto simp: hd)
  then have run: "abstraction S = Inr kb"
    by (simp add: kb_def hd)
  have zero: "testBit (Zero_bits kb) i \<longleftrightarrow> i < w \<and> (\<forall>v \<in> set S. \<not> testBit v i)" for i
    unfolding kb_def testBit_abstract_masks testBit_getAllOnes using assms by auto
  have one: "testBit (One_bits kb) i \<longleftrightarrow> i < w \<and> (\<forall>v \<in> set S. testBit v i)" for i
    unfolding kb_def testBit_abstract_masks hd by simp
  have width: "getBitWidth kb = w" "BitWidth (One_bits kb) = w"
    by (simp_all add: kb_def hd getAllOnes_def getBitWidth_def)
  have "\<forall>v \<in> set S. consistent v kb"
    unfolding consistent_iff width by (simp add: zero one)
  then show ?thesis
    using run zero one width unfolding getBitWidth_def by blast
qed

theorem abstraction_most_precise_witness:
  "[APInt_of 2 1, APInt_of 2 3] \<noteq> [] \<and>
   BitWidth (APInt_of 2 1) = 2 \<and> BitWidth (APInt_of 2 3) = 2 \<and>
   abstraction [APInt_of 2 1, APInt_of 2 3] =
     Inr \<lparr>Zero_bits = APInt_of 2 0, One_bits = APInt_of 2 1\<rparr> \<and>
   consistent (APInt_of 2 1) \<lparr>Zero_bits = APInt_of 2 0, One_bits = APInt_of 2 1\<rparr> \<and>
   consistent (APInt_of 2 3) \<lparr>Zero_bits = APInt_of 2 0, One_bits = APInt_of 2 1\<rparr>"
proof -
  let ?S = "[APInt_of 2 1, APInt_of 2 3]"
  let ?K = "\<lparr>Zero_bits = APInt_of 2 0, One_bits = APInt_of 2 1\<rparr>"
  have h: "?S \<noteq> []" "\<forall>v \<in> set ?S. BitWidth v = 2"
    by (simp_all add: APInt_of_def)
  have run: "abstraction ?S = Inr ?K"
    by code_simp
  from abstraction_most_precise [OF h] run
  have "\<forall>v \<in> set ?S. consistent v ?K"
    by auto
  then show ?thesis
    using run by (simp add: APInt_of_def)
qed

text \<open>
  C7. The two copies of \<^verbatim>\<open>abstraction\<close> are not the same function. On the single
  one-bit value 0 the copy in testMulhs.cpp marks bit 0 as Zero, while the copy in
  main.cpp, whose Zero accumulator starts from 0, marks nothing.
\<close>

theorem abstraction_copies_differ:
  "abstraction [APInt_of 1 0] =
     Inr \<lparr>Zero_bits = \<lparr>BitWidth = 1, VAL = 1\<rparr>, One_bits = \<lparr>BitWidth = 1, VAL = 0\<rparr>\<rparr> \<and>
   abstraction_main [APInt_of 1 0] =
     Inr \<lparr>Zero_bits = \<lparr>BitWidth = 1, VAL = 0\<rparr>, One_bits = \<lparr>BitWidth = 1, VAL = 0\<rparr>\<rparr>"
  by (simp add: abstraction_def abstraction_main_def APInt_of_def getAllOnes_def
      APInt_and_def APInt_not_def KnownBits_of_def)

section \<open>Facts about concretization\<close>

lemma APInt_eqI: "BitWidth a = BitWidth b \<Longrightarrow> VAL a = VAL b \<Longrightarrow> a = (b :: APInt)"
  by simp

lemma hasConflict_iff:
  "hasConflict kb \<longleftrightarrow> (\<exists>i. testBit (Zero_bits kb) i \<and> testBit (One_bits kb) i)"
  by (auto simp: hasConflict_def APInt_and_def testBit_def bit_eq_iff bit_and_iff)

lemma APInt_ok_bit: "APInt_ok a \<Longrightarrow> testBit a i \<Longrightarrow> i < BitWidth a"
  unfolding APInt_ok_def testBit_def
  by (metis bit_take_bit_iff take_bit_nat_eq_self)

lemma concretize_bit_fold:
  assumes "distinct idxs"
  shows "fst (fold concretize_bit idxs (t, ap)) = t div 2 ^ length idxs \<and>
         BitWidth (snd (fold concretize_bit idxs (t, ap))) = BitWidth ap \<and>
         (\<forall>m < length idxs. testBit (snd (fold concretize_bit idxs (t, ap))) (idxs ! m) = bit t m) \<and>
         (\<forall>j. j \<notin> set idxs \<longrightarrow> testBit (snd (fold concretize_bit idxs (t, ap))) j = testBit ap j)"
  using assms
proof (induction idxs arbitrary: t ap)
  case Nil
  then show ?case by simp
next
  case (Cons u rest)
  define ap1 where "ap1 = (if t AND 1 \<noteq> 0 then setBit ap u else clearBit ap u)"
  have step: "fold concretize_bit (u # rest) (t, ap) = fold concretize_bit rest (t div 2, ap1)"
    by (simp add: concretize_bit_def ap1_def)
  have ap1: "testBit ap1 j = (if j = u then odd t else testBit ap j)" "BitWidth ap1 = BitWidth ap" for j
    by (auto simp: ap1_def testBit_def setBit_def clearBit_def bit_set_bit_iff bit_unset_bit_iff
        and_one_eq mod_2_eq_odd)
  from Cons.prems have d: "distinct rest" "u \<notin> set rest" by auto
  note IH = Cons.IH [OF d(1), of "t div 2" ap1]
  let ?r = "snd (fold concretize_bit rest (t div 2, ap1))"
  have "testBit ?r ((u # rest) ! m) = bit t m" if "m < length (u # rest)" for m
  proof (cases m)
    case 0
    then show ?thesis using IH d(2) ap1 by (simp add: bit_0)
  next
    case (Suc m')
    then show ?thesis using IH that by (simp add: bit_Suc)
  qed
  moreover have "testBit ?r j = testBit ap j" if "j \<notin> set (u # rest)" for j
    using IH that ap1 by simp
  moreover have "fst (fold concretize_bit rest (t div 2, ap1)) = t div 2 ^ length (u # rest)"
    using IH by (simp add: div_mult2_eq)
  moreover have "BitWidth ?r = BitWidth ap"
    using IH ap1 by simp
  ultimately show ?case
    unfolding step by blast
qed

lemma unknownIndexes_props:
  "distinct (unknownIndexes kb)"
  "j \<in> set (unknownIndexes kb) \<longleftrightarrow>
     j < getBitWidth kb \<and> \<not> testBit (Zero_bits kb) j \<and> \<not> testBit (One_bits kb) j"
  by (auto simp: unknownIndexes_def)

lemma unknownCount_le: "unknownCount kb \<le> getBitWidth kb"
  unfolding unknownCount_def unknownIndexes_def
  using length_filter_le [of _ "[0..<getBitWidth kb]"] by simp

lemma testBit_concretize_value:
  assumes "distinct idxs"
  shows "m < length idxs \<Longrightarrow> testBit (concretize_value kb idxs i) (idxs ! m) = bit i m"
    and "j \<notin> set idxs \<Longrightarrow> testBit (concretize_value kb idxs i) j = testBit (One_bits kb) j"
    and "BitWidth (concretize_value kb idxs i) = BitWidth (One_bits kb)"
  using concretize_bit_fold [OF assms, of i "One_bits kb"]
  by (simp_all add: concretize_value_def)


lemma APInt_okI: "(\<And>j. testBit a j \<Longrightarrow> j < BitWidth a) \<Longrightarrow> APInt_ok a"
proof -
  assume h: "\<And>j. testBit a j \<Longrightarrow> j < BitWidth a"
  have "take_bit (BitWidth a) (VAL a) = VAL a"
    by (rule bit_eqI) (use h in \<open>auto simp: bit_take_bit_iff testBit_def\<close>)
  then show ?thesis
    by (simp add: APInt_ok_def take_bit_nat_eq_self_iff)
qed

lemma concretize_value_sound:
  fixes i :: nat
  assumes ok: "KnownBits_ok w kb" and nc: "\<not> hasConflict kb"
  defines "v \<equiv> concretize_value kb (unknownIndexes kb) i"
  shows "BitWidth v = w" and "APInt_ok v" and "consistent v kb"
proof -
  note tb = testBit_concretize_value [OF unknownIndexes_props(1) [of kb], where kb = kb and i = i, folded v_def]
  have w: "getBitWidth kb = w" "BitWidth (One_bits kb) = w"
    using ok by (simp_all add: KnownBits_ok_def getBitWidth_def)
  show bw: "BitWidth v = w"
    using tb(3) w by simp
  have known: "testBit v j = testBit (One_bits kb) j" if "j \<notin> set (unknownIndexes kb)" for j
    using tb(2) that by simp
  show "APInt_ok v"
  proof (rule APInt_okI)
    fix j assume j: "testBit v j"
    show "j < BitWidth v"
    proof (cases "j \<in> set (unknownIndexes kb)")
      case True
      then show ?thesis by (simp add: unknownIndexes_props(2) w bw)
    next
      case False
      with j known have "testBit (One_bits kb) j" by simp
      then show ?thesis
        using ok APInt_ok_bit [of "One_bits kb" j] by (simp add: KnownBits_ok_def bw)
    qed
  qed
  show "consistent v kb"
    unfolding consistent_iff
  proof (intro allI impI conjI)
    fix j assume "j < getBitWidth kb" "testBit (Zero_bits kb) j"
    then have "j \<notin> set (unknownIndexes kb)" "\<not> testBit (One_bits kb) j"
      using nc by (auto simp: unknownIndexes_props(2) hasConflict_iff)
    then show "\<not> testBit v j" using known by simp
  next
    fix j assume "j < getBitWidth kb" "testBit (One_bits kb) j"
    then have "j \<notin> set (unknownIndexes kb)"
      by (simp add: unknownIndexes_props(2))
    then show "testBit v j" using known \<open>testBit (One_bits kb) j\<close> by simp
  qed
qed

lemma concretize_value_inj:
  assumes "distinct idxs" "i < 2 ^ length idxs" "i' < 2 ^ length idxs"
    and eq: "concretize_value kb idxs i = concretize_value kb idxs i'"
  shows "i = i'"
proof -
  have "bit i m = bit i' m" if "m < length idxs" for m
    using testBit_concretize_value(1) [OF assms(1) that, of kb] eq by metis
  then have "take_bit (length idxs) i = take_bit (length idxs) i'"
    by (intro bit_eqI) (auto simp: bit_take_bit_iff)
  then show ?thesis
    using assms(2,3) by (simp add: take_bit_nat_eq_self)
qed

lemma concretize_value_complete:
  assumes ok: "KnownBits_ok w kb"
    and x: "BitWidth x = w" "APInt_ok x" "consistent x kb"
  shows "\<exists>i < 2 ^ unknownCount kb. concretize_value kb (unknownIndexes kb) i = x"
proof -
  let ?idxs = "unknownIndexes kb"
  define i :: nat where "i = horner_sum of_bool 2 (map (testBit x) ?idxs)"
  have less: "i < 2 ^ unknownCount kb"
    using horner_sum_of_bool_2_less [of "map (testBit x) ?idxs"]
    by (simp add: i_def unknownCount_def)
  have biti: "bit i m = testBit x (?idxs ! m)" if "m < length ?idxs" for m
    using that by (simp add: i_def bit_horner_sum_bit_iff)
  let ?v = "concretize_value kb ?idxs i"
  note tb = testBit_concretize_value [OF unknownIndexes_props(1) [of kb], where kb = kb and i = i]
  have w: "getBitWidth kb = w" "BitWidth (One_bits kb) = w"
    using ok by (simp_all add: KnownBits_ok_def getBitWidth_def)
  have "testBit ?v j = testBit x j" for j
  proof (cases "j \<in> set ?idxs")
    case True
    then obtain m where m: "m < length ?idxs" "?idxs ! m = j"
      by (auto simp: in_set_conv_nth)
    then show ?thesis using tb(1) [of m] biti by simp
  next
    case False
    then have v: "testBit ?v j = testBit (One_bits kb) j"
      using tb(2) by simp
    show ?thesis
    proof (cases "j < w")
      case True
      with False have "testBit (Zero_bits kb) j \<or> testBit (One_bits kb) j"
        by (auto simp: unknownIndexes_props(2) w)
      then show ?thesis
        using x(3) True v by (auto simp: consistent_iff w)
    next
      case False
      then have "\<not> testBit x j" "\<not> testBit (One_bits kb) j"
        using APInt_ok_bit [of x j] APInt_ok_bit [of "One_bits kb" j] x ok
        by (auto simp: KnownBits_ok_def)
      then show ?thesis using v by simp
    qed
  qed
  then have "VAL ?v = VAL x"
    by (intro bit_eqI) (simp add: testBit_def)
  moreover have "BitWidth ?v = BitWidth x"
    using tb(3) w x(1) by simp
  ultimately have "?v = x" by simp
  with less show ?thesis by blast
qed


lemma concretization_Inr:
  "unknownCount s < 64 \<Longrightarrow>
   concretization s =
     Inr (map (concretize_value s (unknownIndexes s)) [0..<2 ^ unknownCount s])"
  by (simp add: concretization_def unknownCount_def Let_def push_bit_eq_mult)

lemma concretization_Inl:
  "64 \<le> unknownCount s \<Longrightarrow> concretization s = Inl ShiftOutOfRange"
  by (simp add: concretization_def unknownCount_def Let_def)

lemma unknownIndexes_KnownBits_of: "unknownIndexes (KnownBits_of w) = [0..<w]"
  by (simp add: unknownIndexes_def KnownBits_of_def APInt_of_def testBit_def getBitWidth_def)

lemma KnownBits_of_ok: "KnownBits_ok w (KnownBits_of w)" "\<not> hasConflict (KnownBits_of w)"
  by (simp_all add: KnownBits_ok_def KnownBits_of_def APInt_of_def APInt_ok_def
      hasConflict_def APInt_and_def)

lemma concretization_characterisation:
  assumes "KnownBits_ok w s" and "\<not> hasConflict s" and "unknownCount s < 64"
  shows "\<exists>vs. concretization s = Inr vs \<and>
              set vs = {v. BitWidth v = w \<and> APInt_ok v \<and> consistent v s} \<and>
              distinct vs \<and>
              length vs = 2 ^ unknownCount s \<and>
              (unknownCount s = 0 \<longrightarrow> vs = [One_bits s])"
proof -
  let ?idxs = "unknownIndexes s"
  let ?f = "concretize_value s ?idxs"
  define vs where "vs = map ?f [0..<2 ^ unknownCount s]"
  have run: "concretization s = Inr vs"
    using assms(3) by (simp add: concretization_Inr vs_def)
  have sub: "set vs \<subseteq> {v. BitWidth v = w \<and> APInt_ok v \<and> consistent v s}"
    using concretize_value_sound [OF assms(1,2)] by (auto simp: vs_def)
  have "{v. BitWidth v = w \<and> APInt_ok v \<and> consistent v s} \<subseteq> set vs"
  proof
    fix x assume "x \<in> {v. BitWidth v = w \<and> APInt_ok v \<and> consistent v s}"
    then obtain i where "i < 2 ^ unknownCount s" "?f i = x"
      using concretize_value_complete [OF assms(1), of x] by auto
    then show "x \<in> set vs"
      by (auto simp: vs_def)
  qed
  with sub have "set vs = {v. BitWidth v = w \<and> APInt_ok v \<and> consistent v s}"
    by (rule subset_antisym)
  moreover have "inj_on ?f (set [0..<2 ^ unknownCount s])"
    by (rule inj_onI)
      (use concretize_value_inj [OF unknownIndexes_props(1)] in \<open>auto simp: unknownCount_def\<close>)
  then have "distinct vs"
    by (simp add: vs_def distinct_map)
  moreover have "length vs = 2 ^ unknownCount s"
    by (simp add: vs_def)
  moreover have "vs = [One_bits s]" if "unknownCount s = 0"
  proof -
    from that have "?idxs = []" by (simp add: unknownCount_def)
    then show ?thesis
      using that by (simp add: vs_def concretize_value_def)
  qed
  ultimately show ?thesis
    using run by (intro exI [of _ vs]) simp
qed

lemma One_bits_consistent:
  assumes "KnownBits_ok w s" and "\<not> hasConflict s"
  shows "consistent (One_bits s) s"
  using assms by (auto simp: consistent_iff hasConflict_iff)

lemma setBit_One_consistent:
  assumes "KnownBits_ok w s" and "\<not> hasConflict s" and "j < w" and "\<not> testBit (Zero_bits s) j"
  shows "BitWidth (setBit (One_bits s) j) = w" and "APInt_ok (setBit (One_bits s) j)"
    and "consistent (setBit (One_bits s) j) s" and "testBit (setBit (One_bits s) j) j"
proof -
  have tb: "testBit (setBit (One_bits s) j) i \<longleftrightarrow> testBit (One_bits s) i \<or> i = j" for i
    by (auto simp: testBit_def setBit_def bit_set_bit_iff)
  show w: "BitWidth (setBit (One_bits s) j) = w"
    using assms(1) by (simp add: setBit_def KnownBits_ok_def)
  show "APInt_ok (setBit (One_bits s) j)"
    by (rule APInt_okI)
      (use assms(1,3) APInt_ok_bit [of "One_bits s"] in \<open>auto simp: tb w KnownBits_ok_def\<close>)
  show "consistent (setBit (One_bits s) j) s"
    using assms(2,4) by (auto simp: consistent_iff tb hasConflict_iff)
  show "testBit (setBit (One_bits s) j) j"
    by (simp add: tb)
qed

section \<open>The claims about concretization\<close>

text \<open>
  C4, with the bound that the 64-bit counter forces. For every conflict-free state \<open>s\<close>
  of width \<open>w\<close> with fewer than 64 Unknown bits, \<^verbatim>\<open>concretization\<close> returns a list
  whose elements are exactly the values of width \<open>w\<close> consistent with \<open>s\<close>, each of
  them once, so its length is 2 to the number of Unknown bits; without Unknown bits the
  list is the One mask alone.
\<close>

theorem concretization_exact:
  assumes "KnownBits_ok w s" and "\<not> hasConflict s" and "unknownCount s < 64"
  shows "\<exists>vs. concretization s = Inr vs \<and>
              set vs = {v. BitWidth v = w \<and> APInt_ok v \<and> consistent v s} \<and>
              distinct vs \<and>
              length vs = 2 ^ unknownCount s \<and>
              (unknownCount s = 0 \<longrightarrow> vs = [One_bits s])"
  using assms by (rule concretization_characterisation)

theorem concretization_exact_witness:
  "KnownBits_ok 2 \<lparr>Zero_bits = APInt_of 2 0, One_bits = APInt_of 2 1\<rparr> \<and>
   \<not> hasConflict \<lparr>Zero_bits = APInt_of 2 0, One_bits = APInt_of 2 1\<rparr> \<and>
   unknownCount \<lparr>Zero_bits = APInt_of 2 0, One_bits = APInt_of 2 1\<rparr> = 1 \<and>
   concretization \<lparr>Zero_bits = APInt_of 2 0, One_bits = APInt_of 2 1\<rparr> =
     Inr [APInt_of 2 1, APInt_of 2 3] \<and>
   set [APInt_of 2 1, APInt_of 2 3] =
     {v. BitWidth v = 2 \<and> APInt_ok v \<and>
         consistent v \<lparr>Zero_bits = APInt_of 2 0, One_bits = APInt_of 2 1\<rparr>}"
proof -
  let ?s = "\<lparr>Zero_bits = APInt_of 2 0, One_bits = APInt_of 2 1\<rparr>"
  have idx: "unknownIndexes ?s = [1]"
    by code_simp
  have h: "KnownBits_ok 2 ?s" "\<not> hasConflict ?s" "unknownCount ?s < 64"
    unfolding unknownCount_def idx
    by (simp_all add: KnownBits_ok_def APInt_ok_def APInt_of_def hasConflict_def APInt_and_def)
  have run: "concretization ?s = Inr [APInt_of 2 1, APInt_of 2 3]"
    by code_simp
  have uc: "unknownCount ?s = 1"
    unfolding unknownCount_def idx by simp
  have "set [APInt_of 2 1, APInt_of 2 3] =
     {v. BitWidth v = 2 \<and> APInt_ok v \<and> consistent v ?s}"
    using concretization_exact [OF h] unfolding run by (elim exE conjE) simp
  with h(1,2) uc run show ?thesis
    by (intro conjI)
qed

text \<open>
  C4 as stated covers every number of Unknown bits. With 64 Unknown bits the size
  \<^verbatim>\<open>1ull << 64\<close> is not defined and no list of \<open>2 ^ 64\<close> values is returned.
\<close>

theorem concretization_counterexample:
  "KnownBits_ok 64 (KnownBits_of 64) \<and> \<not> hasConflict (KnownBits_of 64) \<and>
   unknownCount (KnownBits_of 64) = 64 \<and>
   concretization (KnownBits_of 64) = Inl ShiftOutOfRange"
  by (simp add: KnownBits_of_ok concretization_Inl unknownCount_def unknownIndexes_KnownBits_of)

text \<open>
  C1, with the same bound. For every conflict-free state \<open>s\<close> of width \<open>w\<close> with
  fewer than 64 Unknown bits, \<^verbatim>\<open>abstraction(concretization(s))\<close> returns \<open>s\<close>:
  the same Zero mask and the same One mask.
\<close>

theorem abstraction_concretization_roundtrip:
  assumes ok: "KnownBits_ok w s" and nc: "\<not> hasConflict s" and k: "unknownCount s < 64"
  shows "abstraction_of_concretization s = Inr s"
proof -
  obtain vs where vs: "concretization s = Inr vs"
    "set vs = {v. BitWidth v = w \<and> APInt_ok v \<and> consistent v s}"
    "length vs = 2 ^ unknownCount s"
    using concretization_characterisation [OF assms] by blast
  have ne: "vs \<noteq> []"
    using vs(3) by auto
  then have "hd vs \<in> set vs" by simp
  then have hd: "BitWidth (hd vs) = w"
    unfolding vs(2) by simp
  have "abstraction vs = Inr (abstract_masks vs (getAllOnes (BitWidth (hd vs))))"
    by (intro abstraction_Inr(1) ne) (simp add: vs(2) hd)
  then have run: "abstraction_of_concretization s = Inr (abstract_masks vs (getAllOnes w))"
    by (simp add: abstraction_of_concretization_def vs(1) hd)
  have one_mem: "One_bits s \<in> set vs"
    using ok One_bits_consistent [OF ok nc] by (simp add: vs(2) KnownBits_ok_def)
  have bound: "testBit (Zero_bits s) j \<or> testBit (One_bits s) j \<Longrightarrow> j < w" for j
    using ok APInt_ok_bit [of "Zero_bits s" j] APInt_ok_bit [of "One_bits s" j]
    by (auto simp: KnownBits_ok_def)
  have zero: "testBit (Zero_bits (abstract_masks vs (getAllOnes w))) j = testBit (Zero_bits s) j"
    for j
  proof (cases "j < w \<and> \<not> testBit (Zero_bits s) j")
    case True
    then have "setBit (One_bits s) j \<in> set vs"
      using setBit_One_consistent(1-3) [OF ok nc, of j] by (simp add: vs(2))
    moreover have "testBit (setBit (One_bits s) j) j"
      using True setBit_One_consistent(4) [OF ok nc, of j] by simp
    ultimately show ?thesis
      using True by (auto simp: testBit_abstract_masks)
  next
    case False
    show ?thesis
    proof (cases "testBit (Zero_bits s) j")
      case True
      then show ?thesis
        using bound [of j]
        by (auto simp: testBit_abstract_masks testBit_getAllOnes vs(2) consistent_iff
            getBitWidth_def KnownBits_ok_def ok [unfolded KnownBits_ok_def])
    next
      case no: False
      with False have "\<not> j < w" by simp
      then show ?thesis
        using no by (simp add: testBit_abstract_masks testBit_getAllOnes)
    qed
  qed
  have one: "testBit (One_bits (abstract_masks vs (getAllOnes w))) j = testBit (One_bits s) j"
    for j
  proof (cases "testBit (One_bits s) j")
    case True
    then show ?thesis
      using bound [of j] ok
      by (auto simp: testBit_abstract_masks hd vs(2) consistent_iff getBitWidth_def
          KnownBits_ok_def)
  next
    case False
    then show ?thesis
      using one_mem by (auto simp: testBit_abstract_masks)
  qed
  have "Zero_bits (abstract_masks vs (getAllOnes w)) = Zero_bits s"
    using ok zero
    by (intro APInt_eqI bit_eqI) (simp_all add: getAllOnes_def KnownBits_ok_def testBit_def)
  moreover have "One_bits (abstract_masks vs (getAllOnes w)) = One_bits s"
    using ok one
    by (intro APInt_eqI bit_eqI) (simp_all add: hd KnownBits_ok_def testBit_def)
  ultimately have "abstract_masks vs (getAllOnes w) = s"
    by simp
  then show ?thesis
    using run by simp
qed


theorem abstraction_concretization_roundtrip_witness:
  "KnownBits_ok 2 \<lparr>Zero_bits = APInt_of 2 2, One_bits = APInt_of 2 1\<rparr> \<and>
   \<not> hasConflict \<lparr>Zero_bits = APInt_of 2 2, One_bits = APInt_of 2 1\<rparr> \<and>
   unknownCount \<lparr>Zero_bits = APInt_of 2 2, One_bits = APInt_of 2 1\<rparr> < 64 \<and>
   abstraction_of_concretization \<lparr>Zero_bits = APInt_of 2 2, One_bits = APInt_of 2 1\<rparr> =
     Inr \<lparr>Zero_bits = APInt_of 2 2, One_bits = APInt_of 2 1\<rparr>"
proof -
  let ?s = "\<lparr>Zero_bits = APInt_of 2 2, One_bits = APInt_of 2 1\<rparr>"
  have idx: "unknownIndexes ?s = []"
    by code_simp
  have h: "KnownBits_ok 2 ?s" "\<not> hasConflict ?s" "unknownCount ?s < 64"
    unfolding unknownCount_def idx
    by (simp_all add: KnownBits_ok_def APInt_ok_def APInt_of_def hasConflict_def APInt_and_def)
  show ?thesis
    using h abstraction_concretization_roundtrip [OF h] by simp
qed

text \<open>
  C1 as stated covers every conflict-free state. The fully unknown state of width 64
  is conflict-free, and the round trip does not give it back.
\<close>

theorem abstraction_concretization_counterexample:
  "KnownBits_ok 64 (KnownBits_of 64) \<and> \<not> hasConflict (KnownBits_of 64) \<and>
   abstraction_of_concretization (KnownBits_of 64) = Inl ShiftOutOfRange"
  by (simp add: KnownBits_of_ok abstraction_of_concretization_def concretization_Inl
      unknownCount_def unknownIndexes_KnownBits_of)

section \<open>Facts about the enumeration\<close>

lemma total_loop_eq: "t < 2 ^ 64 \<Longrightarrow> total_loop n t = (t * 3 ^ n) mod 2 ^ 64"
proof (induction n arbitrary: t)
  case 0
  then show ?case by simp
next
  case (Suc n)
  have "total_loop (Suc n) t = ((t * 3) mod 2 ^ 64 * 3 ^ n) mod 2 ^ 64"
    using Suc.IH [of "(t * 3) mod 2 ^ 64"] by simp
  also have "\<dots> = (t * 3 * 3 ^ n) mod 2 ^ 64"
    by (rule mod_mult_left_eq)
  finally show ?case
    by (simp add: mult.assoc)
qed

lemma total_loop_1:
  "total_loop w 1 = 3 ^ w mod 2 ^ 64"
  "total_loop w (Suc 0) = 3 ^ w mod 2 ^ 64"
  using total_loop_eq [of 1 w] by simp_all

lemma enumerate_digit_props:
  "fst (enumerate_digit n (t, kb)) = t div 3"
  "BitWidth (Zero_bits (snd (enumerate_digit n (t, kb)))) = BitWidth (Zero_bits kb)"
  "BitWidth (One_bits (snd (enumerate_digit n (t, kb)))) = BitWidth (One_bits kb)"
  "testBit (Zero_bits (snd (enumerate_digit n (t, kb)))) b \<longleftrightarrow>
     testBit (Zero_bits kb) b \<or> (b = n \<and> t mod 3 = 0)"
  "testBit (One_bits (snd (enumerate_digit n (t, kb)))) b \<longleftrightarrow>
     testBit (One_bits kb) b \<or> (b = n \<and> t mod 3 = 1)"
  by (auto simp: enumerate_digit_def Let_def testBit_def setBit_def bit_set_bit_iff)

lemma enumerate_digit_fold:
  "fst (fold enumerate_digit [0..<n] (i, kb)) = i div 3 ^ n \<and>
   BitWidth (Zero_bits (snd (fold enumerate_digit [0..<n] (i, kb)))) = BitWidth (Zero_bits kb) \<and>
   BitWidth (One_bits (snd (fold enumerate_digit [0..<n] (i, kb)))) = BitWidth (One_bits kb) \<and>
   (\<forall>b. testBit (Zero_bits (snd (fold enumerate_digit [0..<n] (i, kb)))) b \<longleftrightarrow>
          testBit (Zero_bits kb) b \<or> (b < n \<and> (i div 3 ^ b) mod 3 = 0)) \<and>
   (\<forall>b. testBit (One_bits (snd (fold enumerate_digit [0..<n] (i, kb)))) b \<longleftrightarrow>
          testBit (One_bits kb) b \<or> (b < n \<and> (i div 3 ^ b) mod 3 = 1))"
proof (induction n)
  case 0
  then show ?case by simp
next
  case (Suc n)
  obtain t kb' where st: "fold enumerate_digit [0..<n] (i, kb) = (t, kb')"
    by (cases "fold enumerate_digit [0..<n] (i, kb)")
  with Suc have t: "t = i div 3 ^ n"
    and wd: "BitWidth (Zero_bits kb') = BitWidth (Zero_bits kb)"
      "BitWidth (One_bits kb') = BitWidth (One_bits kb)"
    and z: "\<And>b. testBit (Zero_bits kb') b \<longleftrightarrow>
              testBit (Zero_bits kb) b \<or> (b < n \<and> (i div 3 ^ b) mod 3 = 0)"
    and o: "\<And>b. testBit (One_bits kb') b \<longleftrightarrow>
              testBit (One_bits kb) b \<or> (b < n \<and> (i div 3 ^ b) mod 3 = 1)"
    by simp_all
  have step: "fold enumerate_digit [0..<Suc n] (i, kb) = enumerate_digit n (t, kb')"
    by (simp add: st)
  have dv: "t div 3 = i div 3 ^ Suc n"
    unfolding t power_Suc2 by (rule div_mult2_eq [symmetric])
  show ?case
    unfolding step enumerate_digit_props wd z o dv
    by (auto simp: less_Suc_eq t)
qed

lemma enumerate_state_props:
  "BitWidth (Zero_bits (enumerate_state w i)) = w"
  "BitWidth (One_bits (enumerate_state w i)) = w"
  "testBit (Zero_bits (enumerate_state w i)) b \<longleftrightarrow> b < w \<and> (i div 3 ^ b) mod 3 = 0"
  "testBit (One_bits (enumerate_state w i)) b \<longleftrightarrow> b < w \<and> (i div 3 ^ b) mod 3 = 1"
  using enumerate_digit_fold [of w i "KnownBits_of w"]
  by (simp_all add: enumerate_state_def KnownBits_of_def APInt_of_def testBit_def)

lemma enumerate_state_ok:
  "KnownBits_ok w (enumerate_state w i)" "\<not> hasConflict (enumerate_state w i)"
proof -
  show "KnownBits_ok w (enumerate_state w i)"
    unfolding KnownBits_ok_def
    by (intro conjI APInt_okI) (simp_all add: enumerate_state_props)
  show "\<not> hasConflict (enumerate_state w i)"
    by (auto simp: hasConflict_iff enumerate_state_props)
qed

lemma enumerate_loop_eq: "enumerate_loop w is = Inr (map (enumerate_state w) is)"
  by (induction "is") (simp_all add: enumerate_state_ok)

lemma enumerateFromBitWidth_eq:
  "enumerateFromBitWidth reserve_limit w =
     (if reserve_limit < 3 ^ w mod 2 ^ 64 then Inl ReserveFailed
      else Inr (map (enumerate_state w) [0..<3 ^ w mod 2 ^ 64]))"
  unfolding enumerateFromBitWidth_def total_loop_1(1) Let_def enumerate_loop_eq by (rule refl)

lemma enumerateFromBitWidth_not_assert:
  "enumerateFromBitWidth reserve_limit w \<noteq> Inl AssertNoConflict"
  by (simp add: enumerateFromBitWidth_eq)

lemma base3_digits_eq:
  "(\<forall>b < w. (i div 3 ^ b) mod 3 = (i' div 3 ^ b) mod 3) \<Longrightarrow> i mod 3 ^ w = (i' :: nat) mod 3 ^ w"
proof (induction w)
  case 0
  then show ?case by simp
next
  case (Suc w)
  have "i mod (3 ^ w * 3) = 3 ^ w * (i div 3 ^ w mod 3) + i mod 3 ^ w"
       "i' mod (3 ^ w * 3) = 3 ^ w * (i' div 3 ^ w mod 3) + i' mod 3 ^ w"
    by (rule mod_mult2_eq)+
  with Suc show ?case
    by (simp add: power_Suc2 del: power_Suc)
qed

lemma enumerate_state_masks_inj:
  assumes "i < 3 ^ w" "i' < 3 ^ w"
    and "VAL (Zero_bits (enumerate_state w i)) = VAL (Zero_bits (enumerate_state w i'))"
    and "VAL (One_bits (enumerate_state w i)) = VAL (One_bits (enumerate_state w i'))"
  shows "i = i'"
proof -
  have "(i div 3 ^ b) mod 3 = (i' div 3 ^ b) mod 3" if "b < w" for b
  proof -
    have "testBit (Zero_bits (enumerate_state w i)) b = testBit (Zero_bits (enumerate_state w i')) b"
      "testBit (One_bits (enumerate_state w i)) b = testBit (One_bits (enumerate_state w i')) b"
      using assms(3,4) by (simp_all add: testBit_def)
    then have "((i div 3 ^ b) mod 3 = 0) = ((i' div 3 ^ b) mod 3 = 0)"
      "((i div 3 ^ b) mod 3 = 1) = ((i' div 3 ^ b) mod 3 = 1)"
      using that by (simp_all add: enumerate_state_props)
    then show ?thesis by arith
  qed
  then have "i mod 3 ^ w = i' mod 3 ^ w"
    by (intro base3_digits_eq) simp
  with assms(1,2) show ?thesis by simp
qed

text \<open>
  The copy in main.cpp returns the same list when its loop variable happens to start
  from 0, and a shorter one when it starts anywhere else.
\<close>

lemma enumerateFromBitWidth_main_eq:
  "enumerateFromBitWidth_main reserve_limit i0 w =
     (if reserve_limit < 3 ^ w mod 2 ^ 64 then Inl ReserveFailed
      else Inr (map (enumerate_state w) [i0..<3 ^ w mod 2 ^ 64]))"
  unfolding enumerateFromBitWidth_main_def total_loop_1(1) Let_def by (rule refl)

lemma enumerateFromBitWidth_main_0:
  "enumerateFromBitWidth_main reserve_limit 0 w = enumerateFromBitWidth reserve_limit w"
  unfolding enumerateFromBitWidth_main_eq enumerateFromBitWidth_eq by (rule refl)

lemma enumerateFromBitWidth_main_short:
  assumes "0 < i0" and "3 ^ w < (2::nat) ^ 64" and "3 ^ w \<le> reserve_limit"
  shows "\<exists>kbs. enumerateFromBitWidth_main reserve_limit i0 w = Inr kbs \<and> length kbs < 3 ^ w"
  using assms by (simp add: enumerateFromBitWidth_main_eq)

text \<open>
  With elements of 32 bytes, no count whose size in bytes exceeds 64 bits can be
  reserved; \<open>3 ^ 38\<close> is such a count.
\<close>

lemma reserve_fails_from_38:
  assumes "32 * reserve_limit < 2 ^ 64" and "38 \<le> w" and "w \<le> 40"
  shows "enumerateFromBitWidth reserve_limit w = Inl ReserveFailed"
proof -
  have "(3::nat) ^ w \<le> 3 ^ 40"
    using assms(3) by (intro power_increasing) simp_all
  then have fit: "(3::nat) ^ w mod 2 ^ 64 = 3 ^ w"
    by simp
  have "(3::nat) ^ 38 \<le> 3 ^ w"
    using assms(2) by (intro power_increasing) simp_all
  then have "reserve_limit < 3 ^ w"
    using assms(1) by simp
  then show ?thesis
    by (simp only: enumerateFromBitWidth_eq fit if_True)
qed

text \<open>Powers modulo a number, by repeated squaring.\<close>

lemma power_mod_double:
  assumes "a ^ n mod m = c" and "k = 2 * n" and "d = (c * c) mod m"
  shows "a ^ k mod m = (d::nat)"
proof -
  have "a ^ k mod m = (a ^ n * a ^ n) mod m"
    by (simp add: assms(2) mult_2 power_add)
  also have "\<dots> = ((a ^ n mod m) * (a ^ n mod m)) mod m"
    by (simp add: mod_mult_eq)
  finally show ?thesis
    by (simp add: assms(1,3))
qed

lemma power_mod_double_Suc:
  assumes "a ^ n mod m = c" and "k = 2 * n + 1" and "d = (c * c * a) mod m"
  shows "a ^ k mod m = (d::nat)"
proof -
  have "a ^ k mod m = (a ^ n * a ^ n * a) mod m"
    by (simp only: assms(2) mult_2 power_add power_one_right)
  also have "\<dots> = ((a ^ n * a ^ n) mod m * a) mod m"
    by (simp add: mod_mult_left_eq)
  also have "(a ^ n * a ^ n) mod m = ((a ^ n mod m) * (a ^ n mod m)) mod m"
    by (simp add: mod_mult_eq)
  finally show ?thesis
    by (simp only: assms(1,3) mod_mult_left_eq)
qed

lemma power_3_wrapped: "(3::nat) ^ 2116069371 mod 2 ^ 64 = 1725593659"
proof -
  have p0: "(3::nat) ^ 1 mod 2 ^ 64 = 3"
    by simp
  have p1: "(3::nat) ^ 3 mod 2 ^ 64 = 27"
    by (rule power_mod_double_Suc [OF p0]) simp_all
  have p2: "(3::nat) ^ 7 mod 2 ^ 64 = 2187"
    by (rule power_mod_double_Suc [OF p1]) simp_all
  have p3: "(3::nat) ^ 15 mod 2 ^ 64 = 14348907"
    by (rule power_mod_double_Suc [OF p2]) simp_all
  have p4: "(3::nat) ^ 31 mod 2 ^ 64 = 617673396283947"
    by (rule power_mod_double_Suc [OF p3]) simp_all
  have p5: "(3::nat) ^ 63 mod 2 ^ 64 = 15208858086377056683"
    by (rule power_mod_double_Suc [OF p4]) simp_all
  have p6: "(3::nat) ^ 126 mod 2 ^ 64 = 1026885770213898297"
    by (rule power_mod_double [OF p5]) simp_all
  have p7: "(3::nat) ^ 252 mod 2 ^ 64 = 14078865327153872049"
    by (rule power_mod_double [OF p6]) simp_all
  have p8: "(3::nat) ^ 504 mod 2 ^ 64 = 9503446633773199969"
    by (rule power_mod_double [OF p7]) simp_all
  have p9: "(3::nat) ^ 1009 mod 2 ^ 64 = 706372068924889667"
    by (rule power_mod_double_Suc [OF p8]) simp_all
  have p10: "(3::nat) ^ 2018 mod 2 ^ 64 = 18434750163409481097"
    by (rule power_mod_double [OF p9]) simp_all
  have p11: "(3::nat) ^ 4036 mod 2 ^ 64 = 8161335470187508561"
    by (rule power_mod_double [OF p10]) simp_all
  have p12: "(3::nat) ^ 8072 mod 2 ^ 64 = 2640795898893164449"
    by (rule power_mod_double [OF p11]) simp_all
  have p13: "(3::nat) ^ 16144 mod 2 ^ 64 = 5633414362262922049"
    by (rule power_mod_double [OF p12]) simp_all
  have p14: "(3::nat) ^ 32288 mod 2 ^ 64 = 5465743607187265153"
    by (rule power_mod_double [OF p13]) simp_all
  have p15: "(3::nat) ^ 64577 mod 2 ^ 64 = 12438661173841020675"
    by (rule power_mod_double_Suc [OF p14]) simp_all
  have p16: "(3::nat) ^ 129154 mod 2 ^ 64 = 8152281898486180361"
    by (rule power_mod_double [OF p15]) simp_all
  have p17: "(3::nat) ^ 258309 mod 2 ^ 64 = 17989606833721826547"
    by (rule power_mod_double_Suc [OF p16]) simp_all
  have p18: "(3::nat) ^ 516618 mod 2 ^ 64 = 12870595396507831977"
    by (rule power_mod_double [OF p17]) simp_all
  have p19: "(3::nat) ^ 1033236 mod 2 ^ 64 = 2624586986471549841"
    by (rule power_mod_double [OF p18]) simp_all
  have p20: "(3::nat) ^ 2066473 mod 2 ^ 64 = 7639570973995604067"
    by (rule power_mod_double_Suc [OF p19]) simp_all
  have p21: "(3::nat) ^ 4132947 mod 2 ^ 64 = 18209531859609133787"
    by (rule power_mod_double_Suc [OF p20]) simp_all
  have p22: "(3::nat) ^ 8265895 mod 2 ^ 64 = 8935689654786504203"
    by (rule power_mod_double_Suc [OF p21]) simp_all
  have p23: "(3::nat) ^ 16531791 mod 2 ^ 64 = 2931965624554286443"
    by (rule power_mod_double_Suc [OF p22]) simp_all
  have p24: "(3::nat) ^ 33063583 mod 2 ^ 64 = 8021941825704681515"
    by (rule power_mod_double_Suc [OF p23]) simp_all
  have p25: "(3::nat) ^ 66127167 mod 2 ^ 64 = 6160124669502674347"
    by (rule power_mod_double_Suc [OF p24]) simp_all
  have p26: "(3::nat) ^ 132254335 mod 2 ^ 64 = 11020253240932958379"
    by (rule power_mod_double_Suc [OF p25]) simp_all
  have p27: "(3::nat) ^ 264508671 mod 2 ^ 64 = 4207386664752993963"
    by (rule power_mod_double_Suc [OF p26]) simp_all
  have p28: "(3::nat) ^ 529017342 mod 2 ^ 64 = 18033682228861294137"
    by (rule power_mod_double [OF p27]) simp_all
  have p29: "(3::nat) ^ 1058034685 mod 2 ^ 64 = 4763788005171071507"
    by (rule power_mod_double_Suc [OF p28]) simp_all
  have p30: "(3::nat) ^ 2116069371 mod 2 ^ 64 = 1725593659"
    by (rule power_mod_double_Suc [OF p29]) simp_all
  show ?thesis
    by (rule p30)
qed

section \<open>The claims about the enumeration\<close>

text \<open>
  C3, with the condition that \<^verbatim>\<open>reserve\<close> adds. For every width \<open>w\<close> such that
  \<open>3 ^ w\<close> fits the 64-bit counter and \<^verbatim>\<open>result.reserve\<close> grants \<open>3 ^ w\<close> elements,
  \<^verbatim>\<open>enumerateFromBitWidth\<close> of testMulhs.cpp returns \<open>3 ^ w\<close> states of width \<open>w\<close>;
  their (Zero, One) mask pairs are pairwise distinct, and no state has a bit set in
  both masks. The copy in main.cpp returns the same list if its loop variable, which
  has no initial value, starts from 0; started from any other value it returns
  fewer than \<open>3 ^ w\<close> states.
\<close>

theorem enumerateFromBitWidth_all_states:
  assumes "(3::nat) ^ w < 2 ^ 64" and "3 ^ w \<le> reserve_limit"
  shows "\<exists>kbs. enumerateFromBitWidth reserve_limit w = Inr kbs \<and>
               length kbs = 3 ^ w \<and>
               distinct (map (\<lambda>kb. (VAL (Zero_bits kb), VAL (One_bits kb))) kbs) \<and>
               (\<forall>kb \<in> set kbs. KnownBits_ok w kb \<and> \<not> hasConflict kb) \<and>
               enumerateFromBitWidth_main reserve_limit 0 w = Inr kbs \<and>
               (\<forall>i0. 0 < i0 \<longrightarrow>
                  (\<exists>kbs'. enumerateFromBitWidth_main reserve_limit i0 w = Inr kbs' \<and>
                          length kbs' < 3 ^ w))"
proof -
  define kbs where "kbs = map (enumerate_state w) [0..<3 ^ w]"
  have run: "enumerateFromBitWidth reserve_limit w = Inr kbs"
    using assms by (simp add: enumerateFromBitWidth_eq kbs_def)
  have "inj_on (\<lambda>i. (VAL (Zero_bits (enumerate_state w i)), VAL (One_bits (enumerate_state w i))))
          (set [0..<3 ^ w])"
    by (rule inj_onI) (use enumerate_state_masks_inj [of _ w] in auto)
  then have "distinct (map (\<lambda>kb. (VAL (Zero_bits kb), VAL (One_bits kb))) kbs)"
    by (simp add: kbs_def distinct_map comp_def)
  moreover have "\<forall>kb \<in> set kbs. KnownBits_ok w kb \<and> \<not> hasConflict kb"
    by (auto simp: kbs_def enumerate_state_ok)
  moreover have "length kbs = 3 ^ w"
    by (simp add: kbs_def)
  moreover have "enumerateFromBitWidth_main reserve_limit 0 w = Inr kbs"
    using run by (simp only: enumerateFromBitWidth_main_0)
  moreover have "\<forall>i0. 0 < i0 \<longrightarrow>
      (\<exists>kbs'. enumerateFromBitWidth_main reserve_limit i0 w = Inr kbs' \<and> length kbs' < 3 ^ w)"
    using enumerateFromBitWidth_main_short [OF _ assms] by blast
  ultimately show ?thesis
    using run by blast
qed

theorem enumerateFromBitWidth_all_states_witness:
  "(3::nat) ^ 2 < 2 ^ 64 \<and> (3::nat) ^ 2 \<le> 9 \<and>
   (\<exists>kbs. enumerateFromBitWidth 9 2 = Inr kbs \<and>
          length kbs = 3 ^ 2 \<and>
          distinct (map (\<lambda>kb. (VAL (Zero_bits kb), VAL (One_bits kb))) kbs) \<and>
          (\<forall>kb \<in> set kbs. KnownBits_ok 2 kb \<and> \<not> hasConflict kb) \<and>
          enumerateFromBitWidth_main 9 0 2 = Inr kbs) \<and>
   (\<exists>kbs'. enumerateFromBitWidth_main 9 1 2 = Inr kbs' \<and> length kbs' < 3 ^ 2)"
proof -
  have h: "(3::nat) ^ 2 < 2 ^ 64" "(3::nat) ^ 2 \<le> 9"
    by simp_all
  from enumerateFromBitWidth_all_states [OF h] obtain kbs where
    k: "enumerateFromBitWidth 9 2 = Inr kbs \<and>
        length kbs = 3 ^ 2 \<and>
        distinct (map (\<lambda>kb. (VAL (Zero_bits kb), VAL (One_bits kb))) kbs) \<and>
        (\<forall>kb \<in> set kbs. KnownBits_ok 2 kb \<and> \<not> hasConflict kb) \<and>
        enumerateFromBitWidth_main 9 0 2 = Inr kbs \<and>
        (\<forall>i0. 0 < i0 \<longrightarrow>
           (\<exists>kbs'. enumerateFromBitWidth_main 9 i0 2 = Inr kbs' \<and> length kbs' < 3 ^ 2))"
    ..
  note k1 = k [THEN conjunct1]
    and k2 = k [THEN conjunct2, THEN conjunct1]
    and k3 = k [THEN conjunct2, THEN conjunct2, THEN conjunct1]
    and k4 = k [THEN conjunct2, THEN conjunct2, THEN conjunct2, THEN conjunct1]
    and k5 = k [THEN conjunct2, THEN conjunct2, THEN conjunct2, THEN conjunct2, THEN conjunct1]
    and k6 = k [THEN conjunct2, THEN conjunct2, THEN conjunct2, THEN conjunct2, THEN conjunct2]
  have e1: "\<exists>kbs. enumerateFromBitWidth 9 2 = Inr kbs \<and>
          length kbs = 3 ^ 2 \<and>
          distinct (map (\<lambda>kb. (VAL (Zero_bits kb), VAL (One_bits kb))) kbs) \<and>
          (\<forall>kb \<in> set kbs. KnownBits_ok 2 kb \<and> \<not> hasConflict kb) \<and>
          enumerateFromBitWidth_main 9 0 2 = Inr kbs"
    using k1 k2 k3 k4 k5 by (intro exI [of _ kbs] conjI)
  have e2: "\<exists>kbs'. enumerateFromBitWidth_main 9 1 2 = Inr kbs' \<and> length kbs' < 3 ^ 2"
    by (rule k6 [rule_format]) simp
  from h e1 e2 show ?thesis
    by (intro conjI)
qed

text \<open>
  C3 as stated asks only that \<open>3 ^ w\<close> fit the counter. \<open>3 ^ 40\<close> fits, but no vector
  of 32-byte elements can reserve that many: 576460752303423487 is the largest
  count whose size in bytes still fits 64 bits, and the call fails even there
  (for every smaller limit, lemma \<open>reserve_fails_from_38\<close>). And at width 2 the
  copy in main.cpp, with its loop variable started from 1, returns 8 states, not 9.
\<close>

theorem enumerateFromBitWidth_reserve_counterexample:
  "(3::nat) ^ 40 < 2 ^ 64 \<and>
   enumerateFromBitWidth 576460752303423487 40 = Inl ReserveFailed \<and>
   (3::nat) ^ 2 < 2 ^ 64 \<and>
   \<not> isl (enumerateFromBitWidth_main 9 1 2) \<and>
   length (projr (enumerateFromBitWidth_main 9 1 2)) = 8"
proof -
  have a: "(3::nat) ^ 40 < 2 ^ 64" "(3::nat) ^ 2 < 2 ^ 64"
    by simp_all
  have b: "enumerateFromBitWidth 576460752303423487 40 = Inl ReserveFailed"
    by (rule reserve_fails_from_38) simp_all
  have "(3::nat) ^ 2 mod 2 ^ 64 = 9"
    by simp
  then have "enumerateFromBitWidth_main 9 1 2 = Inr (map (enumerate_state 2) [1..<9])"
    unfolding enumerateFromBitWidth_main_eq by simp
  then have c: "\<not> isl (enumerateFromBitWidth_main 9 1 2)"
    "length (projr (enumerateFromBitWidth_main 9 1 2)) = 8"
    by simp_all
  from a(1) b a(2) c show ?thesis
    by (intro conjI)
qed

text \<open>
  C9, as the code has it. Nothing checks the counter: for every width it ends up as
  \<open>3 ^ w\<close> reduced modulo \<open>2 ^ 64\<close>. \<^verbatim>\<open>result.reserve\<close> sees that wrapped count
  only: where it does not grant it the function ends there, before the loop, and
  where it grants it the loop runs over the indices below the wrapped count.
\<close>

theorem enumerateFromBitWidth_wraps:
  "total_loop w 1 = 3 ^ w mod 2 ^ 64 \<and>
   enumerateFromBitWidth reserve_limit w =
     (if reserve_limit < 3 ^ w mod 2 ^ 64 then Inl ReserveFailed
      else enumerate_loop w [0..<3 ^ w mod 2 ^ 64])"
  unfolding enumerateFromBitWidth_def total_loop_1(1) Let_def by simp

theorem enumerateFromBitWidth_wraps_witness:
  "total_loop 41 1 = 18026252303461234787 \<and>
   enumerateFromBitWidth 576460752303423487 41 = Inl ReserveFailed"
  using enumerateFromBitWidth_wraps [of 41 576460752303423487] by simp

text \<open>
  C9 as stated asks for an error, before the enumeration begins, whenever \<open>3 ^ w\<close>
  does not fit. At width 2116069371 the power does not fit and the counter wraps to
  1725593659. Where \<^verbatim>\<open>reserve\<close> grants that many elements (here it grants up to
  \<open>2 ^ 31\<close>, 64 GiB of 32-byte elements) no error is raised: the function goes on
  into the loop, over the indices below the wrapped count.
\<close>

theorem enumerateFromBitWidth_overflow_counterexample:
  "(2::nat) ^ 64 \<le> 3 ^ 2116069371 \<and>
   total_loop 2116069371 1 = 1725593659 \<and>
   enumerateFromBitWidth 2147483648 2116069371 \<noteq> Inl ReserveFailed \<and>
   enumerateFromBitWidth 2147483648 2116069371 =
     enumerate_loop 2116069371 [0..<1725593659]"
proof -
  have "(2::nat) ^ 64 \<le> 3 ^ 41"
    by simp
  moreover have "(3::nat) ^ 41 \<le> 3 ^ 2116069371"
    by (rule power_increasing) simp_all
  ultimately have big: "(2::nat) ^ 64 \<le> 3 ^ 2116069371"
    by (rule order_trans)
  have total: "total_loop 2116069371 1 = 1725593659"
    by (rule trans [OF total_loop_1(1) power_3_wrapped])
  have granted: "\<not> (2147483648::nat) < 1725593659"
    by simp
  then have run: "enumerateFromBitWidth 2147483648 2116069371 =
      enumerate_loop 2116069371 [0..<1725593659]"
    by (simp only: enumerateFromBitWidth_def total Let_def if_False)
  from granted have "enumerateFromBitWidth 2147483648 2116069371 =
      Inr (map (enumerate_state 2116069371) [0..<1725593659])"
    by (simp only: enumerateFromBitWidth_eq power_3_wrapped if_False)
  then have passed: "enumerateFromBitWidth 2147483648 2116069371 \<noteq> Inl ReserveFailed"
    by (simp only: sum.distinct not_False_eq_True)
  from big total passed run show ?thesis
    by (intro conjI)
qed

section \<open>Facts about the brute-force transfer function\<close>

text \<open>
  For a width from 1 to \<open>2 ^ 31 - 1\<close> the doubled width does not wrap, both assertions
  hold, and the body of the inner loop computes the signed high product.
\<close>

lemma mulhs_highBits_eq:
  assumes "1 \<le> bw" and "bw < 2 ^ 31" and "BitWidth a \<le> 2 * bw" and "BitWidth b \<le> 2 * bw"
  shows "mulhs_highBits bw a b = Inr (mulhs_exact bw a b)"
proof -
  let ?sa = "getSExtValue a" and ?sb = "getSExtValue b"
  let ?A = "nat (take_bit (2 * bw) ?sa)" and ?B = "nat (take_bit (2 * bw) ?sb)"
  have dbl: "(2 * bw) mod 2 ^ 32 = 2 * bw"
    using assms(2) by simp
  have "int (take_bit bw (drop_bit bw (take_bit (2 * bw) (?A * ?B)))) =
        take_bit bw (drop_bit bw (take_bit (2 * bw) (int ?A * int ?B)))"
    by (simp add: of_nat_take_bit of_nat_drop_bit)
  also have "int ?A * int ?B = take_bit (2 * bw) ?sa * take_bit (2 * bw) ?sb"
    by simp
  also have "take_bit (2 * bw) (take_bit (2 * bw) ?sa * take_bit (2 * bw) ?sb) =
             take_bit (2 * bw) (?sa * ?sb)"
    by (rule take_bit_mult)
  also have "take_bit bw (drop_bit bw (take_bit (2 * bw) (?sa * ?sb))) =
             take_bit bw (drop_bit bw (?sa * ?sb))"
    by (simp add: drop_bit_take_bit)
  also have "\<dots> = (?sa * ?sb) div 2 ^ bw mod 2 ^ bw"
    by (simp add: take_bit_eq_mod drop_bit_eq_div)
  finally have val: "take_bit bw (drop_bit bw (take_bit (2 * bw) (?A * ?B))) =
                nat ((?sa * ?sb) div 2 ^ bw mod 2 ^ bw)"
    by linarith
  have sa: "sext a ((2 * bw) mod 2 ^ 32) = Inr \<lparr>BitWidth = 2 * bw, VAL = ?A\<rparr>"
    and sb: "sext b ((2 * bw) mod 2 ^ 32) = Inr \<lparr>BitWidth = 2 * bw, VAL = ?B\<rparr>"
    unfolding dbl using assms(3,4) by (simp_all add: sext_def)
  have ex: "extractBits \<lparr>BitWidth = 2 * bw, VAL = take_bit (2 * bw) (?A * ?B)\<rparr> bw bw =
      Inr \<lparr>BitWidth = bw, VAL = take_bit bw (drop_bit bw (take_bit (2 * bw) (?A * ?B)))\<rparr>"
    using assms(1) dbl by (simp add: extractBits_def mult_2)
  show ?thesis
    unfolding mulhs_highBits_def sa sb
    by (simp add: APInt_mul_def ex val mulhs_exact_def)
qed

text \<open>Where the doubled width wraps below the operand's width, \<^verbatim>\<open>sext\<close> fails.\<close>

lemma mulhs_highBits_wrapped:
  assumes "(2 * bw) mod 2 ^ 32 < BitWidth a"
  shows "mulhs_highBits bw a b = Inl AssertSignExtend"
  using assms by (simp add: mulhs_highBits_def sext_def)

lemma mulhs_inner_eq:
  assumes "1 \<le> bw" and "bw < 2 ^ 31" and "BitWidth l \<le> 2 * bw"
    and "\<forall>r \<in> set rs. BitWidth r \<le> 2 * bw"
  shows "mulhs_inner bw l rs acc = Inr (acc @ map (mulhs_exact bw l) rs)"
  using assms(4)
proof (induction rs arbitrary: acc)
  case Nil
  then show ?case by simp
next
  case (Cons r rs)
  have "mulhs_highBits bw l r = Inr (mulhs_exact bw l r)"
    using Cons.prems by (intro mulhs_highBits_eq assms(1-3)) simp
  moreover have "mulhs_inner bw l rs (acc @ [mulhs_exact bw l r]) =
      Inr ((acc @ [mulhs_exact bw l r]) @ map (mulhs_exact bw l) rs)"
    using Cons.prems by (intro Cons.IH) simp
  ultimately show ?case
    by simp
qed

lemma mulhs_outer_eq:
  assumes "1 \<le> bw" and "bw < 2 ^ 31" and "\<forall>l \<in> set ls. BitWidth l \<le> 2 * bw"
    and "\<forall>r \<in> set rs. BitWidth r \<le> 2 * bw"
  shows "mulhs_outer bw ls rs acc = Inr (acc @ mulhs_results bw ls rs)"
  using assms(3)
proof (induction ls arbitrary: acc)
  case Nil
  then show ?case by (simp add: mulhs_results_def)
next
  case (Cons l ls)
  have "mulhs_inner bw l rs acc = Inr (acc @ map (mulhs_exact bw l) rs)"
    using Cons.prems by (intro mulhs_inner_eq assms(1,2,4)) simp
  moreover have "mulhs_outer bw ls rs (acc @ map (mulhs_exact bw l) rs) =
      Inr ((acc @ map (mulhs_exact bw l) rs) @ mulhs_results bw ls rs)"
    using Cons.prems by (intro Cons.IH) simp
  ultimately show ?case
    by (simp add: mulhs_results_def)
qed

lemma BitWidth_mulhs_exact [simp]: "BitWidth (mulhs_exact bw a b) = bw"
  by (simp add: mulhs_exact_def)

lemma set_mulhs_results:
  "set (mulhs_results bw ls rs) = {mulhs_exact bw l r | l r. l \<in> set ls \<and> r \<in> set rs}"
  by (auto simp: mulhs_results_def)

lemma concretization_BitWidth:
  assumes "concretization s = Inr vs" and "v \<in> set vs"
  shows "BitWidth v = BitWidth (One_bits s)"
  using assms testBit_concretize_value(3) [OF unknownIndexes_props(1), of s s]
  by (auto simp: concretization_def Let_def split: if_splits)

lemma concretization_nonempty:
  "concretization s = Inr vs \<Longrightarrow> vs \<noteq> []"
  by (auto simp: concretization_def Let_def split: if_splits)

lemma abstract_masks_no_conflict:
  assumes "vs \<noteq> []"
  shows "\<not> hasConflict (abstract_masks vs kz)"
proof -
  from assms obtain v where "v \<in> set vs"
    by (cases vs) auto
  then show ?thesis
    by (auto simp: hasConflict_iff testBit_abstract_masks)
qed

lemma abstraction_no_conflict:
  assumes "abstraction vs = Inr kb"
  shows "\<not> hasConflict kb"
proof -
  have ne: "vs \<noteq> [] \<and> (\<forall>v \<in> set vs. BitWidth v = BitWidth (hd vs))"
    by (rule abstraction_Inr_D [of vs kb]) (use assms in blast)
  then have "abstraction vs = Inr (abstract_masks vs (getAllOnes (BitWidth (hd vs))))"
    by (intro abstraction_Inr(1)) blast+
  with assms have "kb = abstract_masks vs (getAllOnes (BitWidth (hd vs)))"
    by simp
  then show ?thesis
    using ne [THEN conjunct1] by (simp add: abstract_masks_no_conflict)
qed

lemma naiveMulhs_no_conflict:
  assumes "naiveMulhs lhs rhs = Inr kb"
  shows "\<not> hasConflict kb"
proof -
  from assms obtain vs where "abstraction vs = Inr kb"
    by (auto simp: naiveMulhs_def Let_def split: if_splits sum.splits)
  then show ?thesis
    by (rule abstraction_no_conflict)
qed

lemma naiveMulhs_Inr:
  assumes "1 \<le> w" and "w < 2 ^ 31" and "KnownBits_ok w lhs" and "KnownBits_ok w rhs"
    and "concretization lhs = Inr ls" and "concretization rhs = Inr rs"
  shows "naiveMulhs lhs rhs = Inr (abstract_masks (mulhs_results w ls rs) (getAllOnes w))"
proof -
  let ?ps = "mulhs_results w ls rs"
  have w: "getBitWidth lhs = w" "getBitWidth rhs = w"
    "BitWidth (One_bits lhs) = w" "BitWidth (One_bits rhs) = w"
    using assms(3,4) by (simp_all add: KnownBits_ok_def getBitWidth_def)
  have wl: "\<forall>l \<in> set ls. BitWidth l \<le> 2 * w"
    using concretization_BitWidth [OF assms(5)] w(3) by simp
  have wr: "\<forall>r \<in> set rs. BitWidth r \<le> 2 * w"
    using concretization_BitWidth [OF assms(6)] w(4) by simp
  have loops: "mulhs_outer w ls rs [] = Inr ?ps"
    using mulhs_outer_eq [OF assms(1,2) wl wr, of "[]"] by simp
  have "ls \<noteq> []" "rs \<noteq> []"
    using assms(5,6) by (auto dest: concretization_nonempty)
  then have ne: "?ps \<noteq> []"
    by (cases ls; cases rs) (simp_all add: mulhs_results_def)
  then have "hd ?ps \<in> set ?ps" by simp
  then have hd: "BitWidth (hd ?ps) = w"
    unfolding set_mulhs_results by auto
  have "abstraction ?ps = Inr (abstract_masks ?ps (getAllOnes (BitWidth (hd ?ps))))"
    by (intro abstraction_Inr(1) ne) (auto simp: set_mulhs_results hd)
  then have "abstraction ?ps = Inr (abstract_masks ?ps (getAllOnes w))"
    unfolding hd .
  moreover have "naiveMulhs lhs rhs = abstraction ?ps"
    using assms(5,6) by (simp add: naiveMulhs_def w loops)
  ultimately show ?thesis
    by simp
qed

lemma naiveMulhs_returns:
  assumes "1 \<le> w" and "w < 2 ^ 31" and "KnownBits_ok w lhs" and "KnownBits_ok w rhs"
    and "unknownCount lhs < 64" and "unknownCount rhs < 64"
  shows "\<exists>kb. naiveMulhs lhs rhs = Inr kb \<and> getBitWidth kb = w \<and>
              BitWidth (One_bits kb) = w \<and> \<not> hasConflict kb"
proof -
  obtain ls rs where c: "concretization lhs = Inr ls" "concretization rhs = Inr rs"
    using assms(5,6) by (simp add: concretization_Inr)
  let ?ps = "mulhs_results w ls rs"
  let ?r = "abstract_masks ?ps (getAllOnes w)"
  have run: "naiveMulhs lhs rhs = Inr ?r"
    using assms(1-4) c by (rule naiveMulhs_Inr)
  have "ls \<noteq> []" "rs \<noteq> []"
    using c by (auto dest: concretization_nonempty)
  then have "?ps \<noteq> []"
    by (cases ls; cases rs) (simp_all add: mulhs_results_def)
  then have "hd ?ps \<in> set ?ps" by simp
  then have hd: "BitWidth (hd ?ps) = w"
    unfolding set_mulhs_results by auto
  have "getBitWidth ?r = w" "BitWidth (One_bits ?r) = w"
    by (simp_all add: getBitWidth_def BitWidth_abstract_masks getAllOnes_def hd)
  moreover have "\<not> hasConflict ?r"
    using run by (rule naiveMulhs_no_conflict)
  ultimately show ?thesis
    using run by blast
qed

text \<open>
  The state in which every bit is known to be zero has one concrete value, 0. Where
  the doubled width wraps below the width, \<^verbatim>\<open>naiveMulhs\<close> on it stops at \<^verbatim>\<open>sext\<close>.
\<close>

lemma known_zero_ok: "KnownBits_ok n (known_zero n)" "\<not> hasConflict (known_zero n)"
  by (simp_all add: known_zero_def KnownBits_ok_def APInt_ok_def getAllOnes_def APInt_of_def
      hasConflict_def APInt_and_def)

lemma unknownIndexes_known_zero: "unknownIndexes (known_zero n) = []"
  by (simp add: unknownIndexes_def known_zero_def getBitWidth_def testBit_def getAllOnes_def
      bit_mask_iff filter_empty_conv)

lemma concretization_known_zero: "concretization (known_zero n) = Inr [APInt_of n 0]"
  unfolding concretization_def unknownIndexes_known_zero
  by (simp add: concretize_value_def known_zero_def)

lemma getBitWidth_known_zero: "getBitWidth (known_zero n) = n"
  by (simp add: getBitWidth_def known_zero_def getAllOnes_def)

lemma naiveMulhs_known_zero_wrapped:
  assumes "(2 * n) mod 2 ^ 32 < n"
  shows "naiveMulhs (known_zero n) (known_zero n) = Inl AssertSignExtend"
proof -
  have "BitWidth (APInt_of n 0) = n"
    by (simp add: APInt_of_def)
  with assms have "mulhs_highBits n (APInt_of n 0) (APInt_of n 0) = Inl AssertSignExtend"
    by (intro mulhs_highBits_wrapped) simp
  then show ?thesis
    unfolding naiveMulhs_def concretization_known_zero getBitWidth_known_zero by simp
qed

section \<open>The claims about the brute-force transfer function\<close>

text \<open>
  C5, with the bounds on the width that the code needs. Let \<open>LHS\<close> and \<open>RHS\<close> be
  conflict-free states of the same width \<open>w\<close>, \<open>1 \<le> w < 2 ^ 31\<close>, and let \<open>lhs\<close> and
  \<open>rhs\<close> be members of their concretizations. Then \<^verbatim>\<open>naiveMulhs\<close> returns a state, and
  the signed high product of \<open>lhs\<close> and \<open>rhs\<close> (the integer product of the
  two's-complement readings, divided by \<open>2 ^ w\<close> and reduced to \<open>w\<close> bits) is consistent
  with it. That product is what the code computes by sign extension to \<open>2 * w\<close> bits,
  multiplication and extraction of the upper half (lemma \<open>mulhs_highBits_eq\<close>).
\<close>

theorem naiveMulhs_sound:
  assumes "1 \<le> w" and "w < 2 ^ 31"
    and "KnownBits_ok w LHS" and "KnownBits_ok w RHS"
    and "\<not> hasConflict LHS" and "\<not> hasConflict RHS"
    and "concretization LHS = Inr ls" and "concretization RHS = Inr rs"
    and "lhs \<in> set ls" and "rhs \<in> set rs"
  shows "\<exists>r. naiveMulhs LHS RHS = Inr r \<and> BitWidth (mulhs_exact w lhs rhs) = getBitWidth r \<and>
             consistent (mulhs_exact w lhs rhs) r"
proof -
  let ?ps = "mulhs_results w ls rs"
  let ?r = "abstract_masks ?ps (getAllOnes w)"
  have run: "naiveMulhs LHS RHS = Inr ?r"
    using assms(1-4,7,8) by (rule naiveMulhs_Inr)
  have mem: "mulhs_exact w lhs rhs \<in> set ?ps"
    unfolding set_mulhs_results using assms(9,10) by blast
  then have "consistent (mulhs_exact w lhs rhs) ?r"
    by (auto simp: consistent_iff testBit_abstract_masks)
  moreover have "BitWidth (mulhs_exact w lhs rhs) = getBitWidth ?r"
    by (simp add: mulhs_exact_def getBitWidth_def getAllOnes_def BitWidth_abstract_masks)
  ultimately show ?thesis
    using run by blast
qed

theorem naiveMulhs_sound_witness:
  "(1::nat) \<le> 4 \<and> (4::nat) < 2 ^ 31 \<and>
   KnownBits_ok 4 \<lparr>Zero_bits = APInt_of 4 5, One_bits = APInt_of 4 8\<rparr> \<and>
   KnownBits_ok 4 \<lparr>Zero_bits = APInt_of 4 8, One_bits = APInt_of 4 6\<rparr> \<and>
   \<not> hasConflict \<lparr>Zero_bits = APInt_of 4 5, One_bits = APInt_of 4 8\<rparr> \<and>
   \<not> hasConflict \<lparr>Zero_bits = APInt_of 4 8, One_bits = APInt_of 4 6\<rparr> \<and>
   concretization \<lparr>Zero_bits = APInt_of 4 5, One_bits = APInt_of 4 8\<rparr> =
     Inr [APInt_of 4 8, APInt_of 4 10] \<and>
   concretization \<lparr>Zero_bits = APInt_of 4 8, One_bits = APInt_of 4 6\<rparr> =
     Inr [APInt_of 4 6, APInt_of 4 7] \<and>
   APInt_of 4 10 \<in> set [APInt_of 4 8, APInt_of 4 10] \<and>
   APInt_of 4 7 \<in> set [APInt_of 4 6, APInt_of 4 7] \<and>
   naiveMulhs \<lparr>Zero_bits = APInt_of 4 5, One_bits = APInt_of 4 8\<rparr>
              \<lparr>Zero_bits = APInt_of 4 8, One_bits = APInt_of 4 6\<rparr> =
     Inr \<lparr>Zero_bits = APInt_of 4 2, One_bits = APInt_of 4 12\<rparr> \<and>
   mulhs_exact 4 (APInt_of 4 10) (APInt_of 4 7) = APInt_of 4 13 \<and>
   consistent (APInt_of 4 13) \<lparr>Zero_bits = APInt_of 4 2, One_bits = APInt_of 4 12\<rparr>"
proof -
  let ?L = "\<lparr>Zero_bits = APInt_of 4 5, One_bits = APInt_of 4 8\<rparr>"
  let ?R = "\<lparr>Zero_bits = APInt_of 4 8, One_bits = APInt_of 4 6\<rparr>"
  let ?N = "\<lparr>Zero_bits = APInt_of 4 2, One_bits = APInt_of 4 12\<rparr>"
  have c: "concretization ?L = Inr [APInt_of 4 8, APInt_of 4 10]"
    "concretization ?R = Inr [APInt_of 4 6, APInt_of 4 7]"
    by code_simp+
  have ex: "mulhs_exact 4 (APInt_of 4 10) (APInt_of 4 7) = APInt_of 4 13"
    by code_simp
  have ok: "KnownBits_ok 4 ?L" "KnownBits_ok 4 ?R" "\<not> hasConflict ?L" "\<not> hasConflict ?R"
    by (simp_all add: KnownBits_ok_def APInt_ok_def APInt_of_def hasConflict_def APInt_and_def)
  have m: "APInt_of 4 10 \<in> set [APInt_of 4 8, APInt_of 4 10]"
    "APInt_of 4 7 \<in> set [APInt_of 4 6, APInt_of 4 7]"
    by simp_all
  have b: "(1::nat) \<le> 4" "(4::nat) < 2 ^ 31"
    by simp_all
  have "abstract_masks
      (mulhs_results 4 [APInt_of 4 8, APInt_of 4 10] [APInt_of 4 6, APInt_of 4 7])
      (getAllOnes 4) = ?N"
    by code_simp
  then have run: "naiveMulhs ?L ?R = Inr ?N"
    using naiveMulhs_Inr [OF b ok(1,2) c] by simp
  from naiveMulhs_sound [OF b ok c m]
  have "consistent (APInt_of 4 13) ?N"
    unfolding run ex by simp
  then show ?thesis
    using b ok c m run ex by blast
qed

text \<open>
  C5 as stated puts no bound on the width. At width \<open>2 ^ 31\<close> the doubled width, an
  \<^verbatim>\<open>unsigned\<close> product, is 0: for the conflict-free state in which every bit is known
  to be zero, whose one concrete value is 0, \<^verbatim>\<open>naiveMulhs\<close> stops at the assertion of
  \<^verbatim>\<open>sext\<close> and returns no state that the product could be consistent with.
\<close>

theorem naiveMulhs_width_counterexample:
  "KnownBits_ok 2147483648 (known_zero 2147483648) \<and>
   \<not> hasConflict (known_zero 2147483648) \<and>
   concretization (known_zero 2147483648) = Inr [APInt_of 2147483648 0] \<and>
   naiveMulhs (known_zero 2147483648) (known_zero 2147483648) = Inl AssertSignExtend"
proof -
  have "(2 * 2147483648) mod 2 ^ 32 < (2147483648::nat)"
    by simp
  then have "naiveMulhs (known_zero 2147483648) (known_zero 2147483648) = Inl AssertSignExtend"
    by (rule naiveMulhs_known_zero_wrapped)
  with known_zero_ok [of 2147483648] concretization_known_zero [of 2147483648]
  show ?thesis
    by (intro conjI)
qed

text \<open>
  C8. No state that the three functions hand out has a bit set in both masks. Every
  element of a list that the enumeration returns is conflict-free, and it returns one
  wherever \<^verbatim>\<open>reserve\<close> grants the count; \<^verbatim>\<open>abstraction\<close> returns a conflict-free
  state for every nonempty list of values of one width; whatever state \<^verbatim>\<open>naiveMulhs\<close>
  returns is conflict-free, and it returns one for operands of one width from 1 to
  \<open>2 ^ 31 - 1\<close> whose numbers of Unknown bits are below 64.
\<close>

theorem no_conflict_invariant:
  "(\<forall>kbs. enumerateFromBitWidth reserve_limit w = Inr kbs \<longrightarrow>
      (\<forall>kb \<in> set kbs. \<not> hasConflict kb)) \<and>
   (3 ^ w mod 2 ^ 64 \<le> reserve_limit \<longrightarrow>
      (\<exists>kbs. enumerateFromBitWidth reserve_limit w = Inr kbs)) \<and>
   (vs \<noteq> [] \<and> (\<forall>v \<in> set vs. BitWidth v = BitWidth (hd vs)) \<longrightarrow>
      (\<exists>kb. abstraction vs = Inr kb \<and> \<not> hasConflict kb)) \<and>
   (\<forall>kb. abstraction vs = Inr kb \<longrightarrow> \<not> hasConflict kb) \<and>
   (1 \<le> n \<and> n < 2 ^ 31 \<and> KnownBits_ok n lhs \<and> KnownBits_ok n rhs \<and>
    unknownCount lhs < 64 \<and> unknownCount rhs < 64 \<longrightarrow>
      (\<exists>kb. naiveMulhs lhs rhs = Inr kb)) \<and>
   (\<forall>kb. naiveMulhs lhs rhs = Inr kb \<longrightarrow> \<not> hasConflict kb)"
proof (intro conjI impI allI)
  fix kbs assume "enumerateFromBitWidth reserve_limit w = Inr kbs"
  then show "\<forall>kb \<in> set kbs. \<not> hasConflict kb"
    by (auto simp: enumerateFromBitWidth_eq enumerate_state_ok split: if_splits)
next
  assume "3 ^ w mod 2 ^ 64 \<le> reserve_limit"
  then show "\<exists>kbs. enumerateFromBitWidth reserve_limit w = Inr kbs"
    by (simp add: enumerateFromBitWidth_eq)
next
  assume h: "vs \<noteq> [] \<and> (\<forall>v \<in> set vs. BitWidth v = BitWidth (hd vs))"
  then have "abstraction vs = Inr (abstract_masks vs (getAllOnes (BitWidth (hd vs))))"
    by (intro abstraction_Inr(1)) blast+
  then show "\<exists>kb. abstraction vs = Inr kb \<and> \<not> hasConflict kb"
    using abstraction_no_conflict [of vs] by simp
next
  fix kb assume "abstraction vs = Inr kb"
  then show "\<not> hasConflict kb"
    by (rule abstraction_no_conflict)
next
  assume "1 \<le> n \<and> n < 2 ^ 31 \<and> KnownBits_ok n lhs \<and> KnownBits_ok n rhs \<and>
    unknownCount lhs < 64 \<and> unknownCount rhs < 64"
  then show "\<exists>kb. naiveMulhs lhs rhs = Inr kb"
    using naiveMulhs_returns [of n lhs rhs] by blast
next
  fix kb assume "naiveMulhs lhs rhs = Inr kb"
  then show "\<not> hasConflict kb"
    by (rule naiveMulhs_no_conflict)
qed

theorem no_conflict_invariant_witness:
  "enumerateFromBitWidth 3 1 =
     Inr [\<lparr>Zero_bits = APInt_of 1 1, One_bits = APInt_of 1 0\<rparr>,
          \<lparr>Zero_bits = APInt_of 1 0, One_bits = APInt_of 1 1\<rparr>,
          \<lparr>Zero_bits = APInt_of 1 0, One_bits = APInt_of 1 0\<rparr>] \<and>
   \<not> hasConflict \<lparr>Zero_bits = APInt_of 1 1, One_bits = APInt_of 1 0\<rparr> \<and>
   \<not> hasConflict \<lparr>Zero_bits = APInt_of 1 0, One_bits = APInt_of 1 1\<rparr> \<and>
   \<not> hasConflict \<lparr>Zero_bits = APInt_of 1 0, One_bits = APInt_of 1 0\<rparr> \<and>
   [APInt_of 1 0] \<noteq> [] \<and>
   BitWidth (APInt_of 1 0) = BitWidth (hd [APInt_of 1 0]) \<and>
   (\<exists>kb. abstraction [APInt_of 1 0] = Inr kb \<and> \<not> hasConflict kb) \<and>
   (1::nat) \<le> 1 \<and> (1::nat) < 2 ^ 31 \<and>
   KnownBits_ok 1 (KnownBits_of 1) \<and>
   unknownCount (KnownBits_of 1) < 64 \<and>
   naiveMulhs (KnownBits_of 1) (KnownBits_of 1) =
     Inr \<lparr>Zero_bits = APInt_of 1 1, One_bits = APInt_of 1 0\<rparr>"
proof -
  let ?K = "\<lparr>Zero_bits = APInt_of 1 1, One_bits = APInt_of 1 0\<rparr>"
  let ?I = "\<lparr>Zero_bits = APInt_of 1 0, One_bits = APInt_of 1 1\<rparr>"
  let ?U = "\<lparr>Zero_bits = APInt_of 1 0, One_bits = APInt_of 1 0\<rparr>"
  note inv = no_conflict_invariant [of 3 1 "[APInt_of 1 0]" 1 "KnownBits_of 1" "KnownBits_of 1"]
  have st: "enumerate_state 1 0 = ?K" "enumerate_state 1 1 = ?I" "enumerate_state 1 2 = ?U"
    by code_simp+
  have "[0..<3] = [0, 1, 2]"
    by (simp add: upt_rec)
  then have "map (enumerate_state 1) [0..<3] = [?K, ?I, ?U]"
    by (simp only: list.map st)
  then have en: "enumerateFromBitWidth 3 1 = Inr [?K, ?I, ?U]"
    unfolding enumerateFromBitWidth_eq by simp
  have k: "unknownCount (KnownBits_of 1) < 64"
    by (simp add: unknownCount_def unknownIndexes_KnownBits_of)
  have v: "[APInt_of 1 0] \<noteq> [] \<and>
      (\<forall>v \<in> set [APInt_of 1 0]. BitWidth v = BitWidth (hd [APInt_of 1 0]))"
    by simp
  have v': "BitWidth (APInt_of 1 0) = BitWidth (hd [APInt_of 1 0])"
    by simp
  have b: "(1::nat) \<le> 1" "(1::nat) < 2 ^ 31"
    by simp_all
  have c: "concretization (KnownBits_of 1) = Inr [APInt_of 1 0, APInt_of 1 1]"
    by code_simp
  have "abstract_masks
      (mulhs_results 1 [APInt_of 1 0, APInt_of 1 1] [APInt_of 1 0, APInt_of 1 1])
      (getAllOnes 1) = ?K"
    by code_simp
  then have run: "naiveMulhs (KnownBits_of 1) (KnownBits_of 1) = Inr ?K"
    using naiveMulhs_Inr [OF b KnownBits_of_ok(1) KnownBits_of_ok(1) c c] by simp
  from inv [THEN conjunct1, rule_format, OF en]
  have nc: "\<not> hasConflict ?K" "\<not> hasConflict ?I" "\<not> hasConflict ?U"
    by simp_all
  from inv v have ab: "\<exists>kb. abstraction [APInt_of 1 0] = Inr kb \<and> \<not> hasConflict kb"
    by blast
  show ?thesis
    using en nc v [THEN conjunct1] v' ab b KnownBits_of_ok(1) [of 1] k run by (intro conjI)
qed

section \<open>Facts about the comparison engine\<close>

lemma isIncomparable_iff:
  "isIncomparable ks composite naive \<longleftrightarrow>
   (\<exists>k \<in> set ks. (testBit (Zero_bits composite) k \<and> testBit (One_bits naive) k) \<or>
                  (testBit (One_bits composite) k \<and> testBit (Zero_bits naive) k))"
  by (induction ks) auto

lemma isIncomparable_contradicts:
  "isIncomparable [0..<w] composite naive = contradicts w composite naive"
  by (simp add: isIncomparable_iff contradicts_def)

lemma countPopulation_le: "countPopulation a \<le> BitWidth a"
  unfolding countPopulation_def using length_filter_le [of "bit (VAL a)" "[0..<BitWidth a]"]
  by simp

text \<open>For states of a width below \<open>2 ^ 31\<close> the \<^verbatim>\<open>unsigned\<close> sum is the precision count.\<close>

lemma precision_unsigned:
  assumes "w < 2 ^ 31" and "BitWidth (Zero_bits kb) = w" and "BitWidth (One_bits kb) = w"
  shows "(countPopulation (Zero_bits kb) + countPopulation (One_bits kb)) mod 2 ^ 32 =
         precisionCount kb"
proof -
  have "countPopulation (Zero_bits kb) + countPopulation (One_bits kb) \<le> w + w"
    using countPopulation_le [of "Zero_bits kb"] countPopulation_le [of "One_bits kb"] assms(2,3)
    by simp
  also have "\<dots> < 2 ^ 32"
    using assms(1) by simp
  finally show ?thesis
    by (simp add: precisionCount_def)
qed

lemma compare_pair_verdict:
  assumes "w < 2 ^ 31"
    and "BitWidth (Zero_bits reference) = w" and "BitWidth (One_bits reference) = w"
    and "BitWidth (Zero_bits naive) = w" and "BitWidth (One_bits naive) = w"
  shows "compare_pair w reference naive c =
     (case verdict_of w reference naive of
        Incomparable \<Rightarrow> c\<lparr>incomparableResults := incr64 (incomparableResults c)\<rparr>
      | ReferencePreciser \<Rightarrow> c\<lparr>compositeMorePrecise := incr64 (compositeMorePrecise c)\<rparr>
      | NaivePreciser \<Rightarrow> c\<lparr>naiveMorePrecise := incr64 (naiveMorePrecise c)\<rparr>
      | EqualPrecision \<Rightarrow> c\<lparr>samePrecision := incr64 (samePrecision c)\<rparr>)"
  unfolding compare_pair_def precision_unsigned [OF assms(1,2,3)]
    precision_unsigned [OF assms(1,4,5)]
  by (simp add: verdict_of_def isIncomparable_contradicts Let_def)

lemma incr64_wrap64: "incr64 (wrap64 a) = wrap64 (Suc a)"
  unfolding incr64_def wrap64_def Suc_eq_plus1 by (rule mod_add_left_eq)

lemma wrap64_less: "wrap64 a < 2 ^ 64"
  by (simp add: wrap64_def)

lemma wrap64_id: "a < 2 ^ 64 \<Longrightarrow> wrap64 a = a"
  by (simp add: wrap64_def)

lemma wrap64_0: "wrap64 0 = 0"
  by (simp add: wrap64_def)

text \<open>The counts of the verdicts over a list of pairs.\<close>

lemma verdict_count_Nil: "verdict_count mulhs w [] v = 0"
  by (simp add: verdict_count_def)

lemma verdict_count_snoc:
  "verdict_count mulhs w (ps @ [p]) v =
     (if pair_verdict mulhs w p = Some v then Suc (verdict_count mulhs w ps v)
      else verdict_count mulhs w ps v)"
  by (simp add: verdict_count_def)

lemma verdict_count_le: "verdict_count mulhs w ps v \<le> length ps"
  by (simp add: verdict_count_def)

lemma verdict_count_sum:
  assumes "\<forall>p \<in> set ps. pair_verdict mulhs w p \<noteq> None"
  shows "verdict_count mulhs w ps ReferencePreciser + verdict_count mulhs w ps NaivePreciser +
         verdict_count mulhs w ps EqualPrecision + verdict_count mulhs w ps Incomparable =
         length ps"
  using assms
proof (induction ps rule: rev_induct)
  case Nil
  then show ?case by (simp add: verdict_count_Nil)
next
  case (snoc p ps)
  from snoc.prems obtain v where v: "pair_verdict mulhs w p = Some v"
    by auto
  from snoc.prems have "\<forall>q \<in> set ps. pair_verdict mulhs w q \<noteq> None"
    by simp
  then have IH: "verdict_count mulhs w ps ReferencePreciser +
      verdict_count mulhs w ps NaivePreciser + verdict_count mulhs w ps EqualPrecision +
      verdict_count mulhs w ps Incomparable = length ps"
    by (rule snoc.IH)
  show ?case
    using IH by (cases v) (simp_all add: verdict_count_snoc v)
qed

lemma tallied_Nil:
  "tallied mulhs w [] =
     \<lparr>compositeMorePrecise = 0, naiveMorePrecise = 0,
      samePrecision = 0, incomparableResults = 0\<rparr>"
  by (simp add: tallied_def verdict_count_Nil wrap64_0)

text \<open>
  One pair: the comparison moves the counters from the tally of the pairs before to
  the tally that includes the pair.
\<close>

lemma tallied_step:
  assumes "w < 2 ^ 31" and "naiveMulhs L R = Inr naive"
    and "BitWidth (Zero_bits (mulhs L R)) = w" and "BitWidth (One_bits (mulhs L R)) = w"
    and "BitWidth (Zero_bits naive) = w" and "BitWidth (One_bits naive) = w"
  shows "compare_pair w (mulhs L R) naive (tallied mulhs w ps) =
         tallied mulhs w (ps @ [(L, R)])"
proof -
  have pv: "pair_verdict mulhs w (L, R) = Some (verdict_of w (mulhs L R) naive)"
    by (simp add: pair_verdict_def assms(2))
  show ?thesis
    unfolding compare_pair_verdict [OF assms(1,3,4,5,6)]
    by (cases "verdict_of w (mulhs L R) naive")
      (simp_all add: tallied_def verdict_count_snoc pv incr64_wrap64)
qed

lemma inner_loop_tallied:
  assumes "w < 2 ^ 31"
    and "\<forall>R \<in> set rs. \<exists>naive. naiveMulhs L R = Inr naive \<and>
           BitWidth (Zero_bits naive) = w \<and> BitWidth (One_bits naive) = w"
    and "\<forall>R \<in> set rs. BitWidth (Zero_bits (mulhs L R)) = w \<and>
           BitWidth (One_bits (mulhs L R)) = w"
  shows "inner_loop mulhs w L rs (tallied mulhs w ps) =
         Inr (tallied mulhs w (ps @ map (Pair L) rs))"
  using assms(2,3)
proof (induction rs arbitrary: ps)
  case Nil
  then show ?case by simp
next
  case (Cons R rs)
  from Cons.prems(1) obtain naive where nv: "naiveMulhs L R = Inr naive"
    "BitWidth (Zero_bits naive) = w" "BitWidth (One_bits naive) = w"
    by auto
  from Cons.prems(2) have mw: "BitWidth (Zero_bits (mulhs L R)) = w"
    "BitWidth (One_bits (mulhs L R)) = w"
    by simp_all
  have step: "compare_pair w (mulhs L R) naive (tallied mulhs w ps) =
      tallied mulhs w (ps @ [(L, R)])"
    using assms(1) nv(1) mw nv(2,3) by (rule tallied_step)
  have "inner_loop mulhs w L rs (tallied mulhs w (ps @ [(L, R)])) =
      Inr (tallied mulhs w ((ps @ [(L, R)]) @ map (Pair L) rs))"
    using Cons.prems by (intro Cons.IH) simp_all
  then show ?case
    by (simp add: nv(1) step)
qed

lemma outer_loop_tallied:
  assumes "w < 2 ^ 31"
    and "\<forall>L \<in> set ls. \<forall>R \<in> set all. \<exists>naive. naiveMulhs L R = Inr naive \<and>
           BitWidth (Zero_bits naive) = w \<and> BitWidth (One_bits naive) = w"
    and "\<forall>L \<in> set ls. \<forall>R \<in> set all. BitWidth (Zero_bits (mulhs L R)) = w \<and>
           BitWidth (One_bits (mulhs L R)) = w"
  shows "outer_loop mulhs w all ls (tallied mulhs w ps) =
         Inr (tallied mulhs w (ps @ List.product ls all))"
  using assms(2,3)
proof (induction ls arbitrary: ps)
  case Nil
  then show ?case by simp
next
  case (Cons L ls)
  have "inner_loop mulhs w L all (tallied mulhs w ps) =
      Inr (tallied mulhs w (ps @ map (Pair L) all))"
    using Cons.prems by (intro inner_loop_tallied assms(1)) simp_all
  moreover have "outer_loop mulhs w all ls (tallied mulhs w (ps @ map (Pair L) all)) =
      Inr (tallied mulhs w ((ps @ map (Pair L) all) @ List.product ls all))"
    using Cons.prems by (intro Cons.IH) simp_all
  ultimately show ?case
    by simp
qed

text \<open>Without any knowledge of the reference function, the loops still return.\<close>

lemma inner_loop_returns:
  assumes "\<forall>R \<in> set rs. \<exists>naive. naiveMulhs L R = Inr naive"
  shows "\<exists>c'. inner_loop mulhs w L rs c = Inr c'"
  using assms
proof (induction rs arbitrary: c)
  case Nil
  then show ?case by simp
next
  case (Cons R rs)
  from Cons.prems obtain naive where nv: "naiveMulhs L R = Inr naive"
    by auto
  have "\<exists>c'. inner_loop mulhs w L rs (compare_pair w (mulhs L R) naive c) = Inr c'"
    using Cons.prems by (intro Cons.IH) simp
  then show ?case
    by (simp add: nv)
qed

lemma outer_loop_returns:
  assumes "\<forall>L \<in> set ls. \<forall>R \<in> set all. \<exists>naive. naiveMulhs L R = Inr naive"
  shows "\<exists>c'. outer_loop mulhs w all ls c = Inr c'"
  using assms
proof (induction ls arbitrary: c)
  case Nil
  then show ?case by simp
next
  case (Cons L ls)
  have "\<exists>c1. inner_loop mulhs w L all c = Inr c1"
    using Cons.prems by (intro inner_loop_returns) simp
  then obtain c1 where c1: "inner_loop mulhs w L all c = Inr c1"
    by blast
  have "\<exists>c'. outer_loop mulhs w all ls c1 = Inr c'"
    using Cons.prems by (intro Cons.IH) simp
  then show ?case
    by (simp add: c1)
qed

text \<open>On the enumerated states of a width from 1 to 63, \<^verbatim>\<open>naiveMulhs\<close> returns.\<close>

lemma enumerated_naiveMulhs:
  assumes "1 \<le> w" and "w < 64"
  shows "\<exists>naive. naiveMulhs (enumerate_state w i) (enumerate_state w j) = Inr naive \<and>
           BitWidth (Zero_bits naive) = w \<and> BitWidth (One_bits naive) = w"
proof -
  have "getBitWidth (enumerate_state w k) = w" for k
    by (simp add: getBitWidth_def enumerate_state_props)
  then have k: "unknownCount (enumerate_state w k) < 64" for k
    using unknownCount_le [of "enumerate_state w k"] assms(2) by simp
  have "w < 2 ^ 31"
    using assms(2) by simp
  from naiveMulhs_returns [OF assms(1) this enumerate_state_ok(1) enumerate_state_ok(1) k k]
  show ?thesis
    by (auto simp: getBitWidth_def)
qed

lemma testMulhsTransferFunctions_returns:
  assumes "1 \<le> w" and "w < 64" and "3 ^ w mod 2 ^ 64 \<le> reserve_limit"
  shows "\<exists>c. testMulhsTransferFunctions reserve_limit mulhs w =
               Inr \<lparr>reportBitWidth = w, totalKnownBits = 3 ^ w mod 2 ^ 64, counters = c\<rparr>"
proof -
  let ?all = "map (enumerate_state w) [0..<3 ^ w mod 2 ^ 64]"
  have en: "enumerateFromBitWidth reserve_limit w = Inr ?all"
    using assms(3) by (simp add: enumerateFromBitWidth_eq)
  have "\<forall>L \<in> set ?all. \<forall>R \<in> set ?all. \<exists>naive. naiveMulhs L R = Inr naive"
    using enumerated_naiveMulhs [OF assms(1,2)] by fastforce
  from outer_loop_returns [OF this, of mulhs w]
  obtain c where "outer_loop mulhs w ?all ?all
       \<lparr>compositeMorePrecise = 0, naiveMorePrecise = 0,
        samePrecision = 0, incomparableResults = 0\<rparr> = Inr c"
    by blast
  then show ?thesis
    by (simp add: testMulhsTransferFunctions_def en)
qed

text \<open>
  With a reference function that returns states of the operands' width, the counters
  of the report are the tally of all ordered pairs of enumerated states.
\<close>

lemma testMulhsTransferFunctions_run:
  assumes "1 \<le> w" and "w < 64" and "3 ^ w mod 2 ^ 64 \<le> reserve_limit"
    and "\<forall>l r. KnownBits_ok w l \<and> KnownBits_ok w r \<longrightarrow> KnownBits_ok w (mulhs l r)"
    and "all = map (enumerate_state w) [0..<3 ^ w mod 2 ^ 64]"
  shows "enumerateFromBitWidth reserve_limit w = Inr all"
    and "testMulhsTransferFunctions reserve_limit mulhs w =
           Inr \<lparr>reportBitWidth = w, totalKnownBits = 3 ^ w mod 2 ^ 64,
                counters = tallied mulhs w (List.product all all)\<rparr>"
    and "\<forall>p \<in> set (List.product all all). pair_verdict mulhs w p \<noteq> None"
proof -
  show en: "enumerateFromBitWidth reserve_limit w = Inr all"
    using assms(3) by (simp add: enumerateFromBitWidth_eq assms(5))
  have ok: "\<forall>L \<in> set all. KnownBits_ok w L"
    by (auto simp: assms(5) enumerate_state_ok)
  have nv: "\<forall>L \<in> set all. \<forall>R \<in> set all. \<exists>naive. naiveMulhs L R = Inr naive \<and>
      BitWidth (Zero_bits naive) = w \<and> BitWidth (One_bits naive) = w"
    using enumerated_naiveMulhs [OF assms(1,2)] unfolding assms(5) by fastforce
  have mw: "\<forall>L \<in> set all. \<forall>R \<in> set all. BitWidth (Zero_bits (mulhs L R)) = w \<and>
      BitWidth (One_bits (mulhs L R)) = w"
  proof (intro ballI)
    fix L R assume "L \<in> set all" "R \<in> set all"
    with ok have "KnownBits_ok w L \<and> KnownBits_ok w R"
      by blast
    with assms(4) have "KnownBits_ok w (mulhs L R)"
      by blast
    then show "BitWidth (Zero_bits (mulhs L R)) = w \<and> BitWidth (One_bits (mulhs L R)) = w"
      by (simp add: KnownBits_ok_def)
  qed
  have "w < 2 ^ 31"
    using assms(2) by simp
  from outer_loop_tallied [OF this nv mw, of "[]"]
  have "outer_loop mulhs w all all
       \<lparr>compositeMorePrecise = 0, naiveMorePrecise = 0,
        samePrecision = 0, incomparableResults = 0\<rparr> =
      Inr (tallied mulhs w (List.product all all))"
    by (simp add: tallied_Nil)
  then show "testMulhsTransferFunctions reserve_limit mulhs w =
           Inr \<lparr>reportBitWidth = w, totalKnownBits = 3 ^ w mod 2 ^ 64,
                counters = tallied mulhs w (List.product all all)\<rparr>"
    by (simp add: testMulhsTransferFunctions_def en assms(5))
  show "\<forall>p \<in> set (List.product all all). pair_verdict mulhs w p \<noteq> None"
  proof
    fix p assume "p \<in> set (List.product all all)"
    then have "fst p \<in> set all" "snd p \<in> set all"
      by auto
    with nv obtain naive where "naiveMulhs (fst p) (snd p) = Inr naive"
      by blast
    then show "pair_verdict mulhs w p \<noteq> None"
      by (simp add: pair_verdict_def)
  qed
qed

lemma pairs_fit_width:
  assumes "((3::nat) ^ w)\<^sup>2 < 2 ^ 64"
  shows "w < 64" and "(3::nat) ^ w mod 2 ^ 64 = 3 ^ w"
proof -
  have "(3::nat) ^ w \<le> (3 ^ w)\<^sup>2"
    by (simp add: power2_eq_square)
  with assms have lt: "(3::nat) ^ w < 2 ^ 64"
    by linarith
  then show "(3::nat) ^ w mod 2 ^ 64 = 3 ^ w"
    by simp
  have "(2::nat) ^ w \<le> 3 ^ w"
    by (rule power_mono) simp_all
  with lt have "(2::nat) ^ w < 2 ^ 64"
    by linarith
  then show "w < 64"
    by (rule power_less_imp_less_exp [rotated]) simp
qed

text \<open>
  While the number of pairs is below \<open>2 ^ 64\<close> no counter wraps: each is the number
  of pairs with its verdict, and the four add up to the number of pairs.
\<close>

lemma tallied_exact:
  assumes "length ps < 2 ^ 64" and "\<forall>p \<in> set ps. pair_verdict mulhs w p \<noteq> None"
  shows "compositeMorePrecise (tallied mulhs w ps) = verdict_count mulhs w ps ReferencePreciser"
    and "naiveMorePrecise (tallied mulhs w ps) = verdict_count mulhs w ps NaivePreciser"
    and "samePrecision (tallied mulhs w ps) = verdict_count mulhs w ps EqualPrecision"
    and "incomparableResults (tallied mulhs w ps) = verdict_count mulhs w ps Incomparable"
    and "counter_sum (tallied mulhs w ps) = length ps"
proof -
  have id: "wrap64 (verdict_count mulhs w ps v) = verdict_count mulhs w ps v" for v
    using verdict_count_le [of mulhs w ps v] assms(1) by (intro wrap64_id) simp
  show "compositeMorePrecise (tallied mulhs w ps) = verdict_count mulhs w ps ReferencePreciser"
    "naiveMorePrecise (tallied mulhs w ps) = verdict_count mulhs w ps NaivePreciser"
    "samePrecision (tallied mulhs w ps) = verdict_count mulhs w ps EqualPrecision"
    "incomparableResults (tallied mulhs w ps) = verdict_count mulhs w ps Incomparable"
    by (simp_all add: tallied_def id)
  show "counter_sum (tallied mulhs w ps) = length ps"
    using verdict_count_sum [OF assms(2)] by (simp add: counter_sum_def tallied_def id)
qed

lemma tallied_bound: "counter_sum (tallied mulhs w ps) < 4 * 2 ^ 64"
proof -
  have "wrap64 (verdict_count mulhs w ps v) < 2 ^ 64" for v
    by (rule wrap64_less)
  from this [of ReferencePreciser] this [of NaivePreciser] this [of EqualPrecision]
    this [of Incomparable]
  show ?thesis
    unfolding counter_sum_def tallied_def by simp
qed

section \<open>The claim about the comparison engine\<close>

text \<open>
  At width 1 every signed high product is 0, so \<^verbatim>\<open>naiveMulhs\<close> returns the state
  "known zero" for every pair of the three enumerated states.
\<close>

lemma enumerate_width_1:
  "enumerateFromBitWidth 3 1 =
     Inr [\<lparr>Zero_bits = APInt_of 1 1, One_bits = APInt_of 1 0\<rparr>,
          \<lparr>Zero_bits = APInt_of 1 0, One_bits = APInt_of 1 1\<rparr>,
          \<lparr>Zero_bits = APInt_of 1 0, One_bits = APInt_of 1 0\<rparr>]"
proof -
  have st: "enumerate_state 1 0 = \<lparr>Zero_bits = APInt_of 1 1, One_bits = APInt_of 1 0\<rparr>"
    "enumerate_state 1 1 = \<lparr>Zero_bits = APInt_of 1 0, One_bits = APInt_of 1 1\<rparr>"
    "enumerate_state 1 2 = \<lparr>Zero_bits = APInt_of 1 0, One_bits = APInt_of 1 0\<rparr>"
    by code_simp+
  have "[0..<3] = [0, 1, 2]"
    by (simp add: upt_rec)
  then have "map (enumerate_state 1) [0..<3] =
      [\<lparr>Zero_bits = APInt_of 1 1, One_bits = APInt_of 1 0\<rparr>,
       \<lparr>Zero_bits = APInt_of 1 0, One_bits = APInt_of 1 1\<rparr>,
       \<lparr>Zero_bits = APInt_of 1 0, One_bits = APInt_of 1 0\<rparr>]"
    by (simp only: list.map st)
  then show ?thesis
    unfolding enumerateFromBitWidth_eq by simp
qed

lemma naiveMulhs_width_1:
  assumes "L \<in> {\<lparr>Zero_bits = APInt_of 1 1, One_bits = APInt_of 1 0\<rparr>,
                 \<lparr>Zero_bits = APInt_of 1 0, One_bits = APInt_of 1 1\<rparr>,
                 \<lparr>Zero_bits = APInt_of 1 0, One_bits = APInt_of 1 0\<rparr>}"
    and "R \<in> {\<lparr>Zero_bits = APInt_of 1 1, One_bits = APInt_of 1 0\<rparr>,
               \<lparr>Zero_bits = APInt_of 1 0, One_bits = APInt_of 1 1\<rparr>,
               \<lparr>Zero_bits = APInt_of 1 0, One_bits = APInt_of 1 0\<rparr>}"
  shows "naiveMulhs L R = Inr \<lparr>Zero_bits = APInt_of 1 1, One_bits = APInt_of 1 0\<rparr>"
proof -
  let ?K = "\<lparr>Zero_bits = APInt_of 1 1, One_bits = APInt_of 1 0\<rparr>"
  let ?I = "\<lparr>Zero_bits = APInt_of 1 0, One_bits = APInt_of 1 1\<rparr>"
  let ?U = "\<lparr>Zero_bits = APInt_of 1 0, One_bits = APInt_of 1 0\<rparr>"
  have ok: "KnownBits_ok 1 ?K" "KnownBits_ok 1 ?I" "KnownBits_ok 1 ?U"
    by (simp_all add: KnownBits_ok_def APInt_ok_def APInt_of_def)
  have c: "concretization ?K = Inr [APInt_of 1 0]" "concretization ?I = Inr [APInt_of 1 1]"
    "concretization ?U = Inr [APInt_of 1 0, APInt_of 1 1]"
    by code_simp+
  have b: "(1::nat) \<le> 1" "(1::nat) < 2 ^ 31"
    by simp_all
  have am: "abstract_masks (mulhs_results 1 ls rs) (getAllOnes 1) = ?K"
    if "ls \<in> {[APInt_of 1 0], [APInt_of 1 1], [APInt_of 1 0, APInt_of 1 1]}"
      and "rs \<in> {[APInt_of 1 0], [APInt_of 1 1], [APInt_of 1 0, APInt_of 1 1]}" for ls rs
  proof -
    have "abstract_masks (mulhs_results 1 [APInt_of 1 0] [APInt_of 1 0]) (getAllOnes 1) = ?K"
      "abstract_masks (mulhs_results 1 [APInt_of 1 0] [APInt_of 1 1]) (getAllOnes 1) = ?K"
      "abstract_masks (mulhs_results 1 [APInt_of 1 0] [APInt_of 1 0, APInt_of 1 1])
         (getAllOnes 1) = ?K"
      "abstract_masks (mulhs_results 1 [APInt_of 1 1] [APInt_of 1 0]) (getAllOnes 1) = ?K"
      "abstract_masks (mulhs_results 1 [APInt_of 1 1] [APInt_of 1 1]) (getAllOnes 1) = ?K"
      "abstract_masks (mulhs_results 1 [APInt_of 1 1] [APInt_of 1 0, APInt_of 1 1])
         (getAllOnes 1) = ?K"
      "abstract_masks (mulhs_results 1 [APInt_of 1 0, APInt_of 1 1] [APInt_of 1 0])
         (getAllOnes 1) = ?K"
      "abstract_masks (mulhs_results 1 [APInt_of 1 0, APInt_of 1 1] [APInt_of 1 1])
         (getAllOnes 1) = ?K"
      "abstract_masks (mulhs_results 1 [APInt_of 1 0, APInt_of 1 1]
         [APInt_of 1 0, APInt_of 1 1]) (getAllOnes 1) = ?K"
      by code_simp+
    with that show ?thesis
      by blast
  qed
  from assms(1) obtain ls where l: "KnownBits_ok 1 L" "concretization L = Inr ls"
    "ls \<in> {[APInt_of 1 0], [APInt_of 1 1], [APInt_of 1 0, APInt_of 1 1]}"
    using ok c by blast
  from assms(2) obtain rs where r: "KnownBits_ok 1 R" "concretization R = Inr rs"
    "rs \<in> {[APInt_of 1 0], [APInt_of 1 1], [APInt_of 1 0, APInt_of 1 1]}"
    using ok c by blast
  show ?thesis
    unfolding naiveMulhs_Inr [OF b l(1) r(1) l(2) r(2)] am [OF l(3) r(3)] by (rule refl)
qed

text \<open>
  C6, with the bounds that the code needs, and with the counters tied to the verdicts.
  For one operand pair of width \<open>w < 2 ^ 31\<close> the engine increments exactly one counter,
  the one that belongs to the verdict: Incomparable when the two results contradict
  each other on a bit below the width, and otherwise ReferencePreciser, NaivePreciser
  or Equal by comparison of the precision counts. For a width \<open>w \<ge> 1\<close> whose number of
  pairs \<open>(3 ^ w)\<^sup>2\<close> is below \<open>2 ^ 64\<close>, where \<^verbatim>\<open>reserve\<close> grants \<open>3 ^ w\<close> elements and
  the reference function returns states of width \<open>w\<close>, the run returns; every ordered
  pair of enumerated states gets a verdict, the verdict of the reference result
  against the result of \<^verbatim>\<open>naiveMulhs\<close>; each counter of the report is the number of
  pairs with its verdict; and the four counters add up to \<open>(3 ^ w)\<^sup>2\<close>.
\<close>

theorem comparison_engine:
  "(w < 2 ^ 31 \<and> KnownBits_ok w reference \<and> KnownBits_ok w naive \<longrightarrow>
      compare_pair w reference naive c =
        (case verdict_of w reference naive of
           Incomparable \<Rightarrow> c\<lparr>incomparableResults := incr64 (incomparableResults c)\<rparr>
         | ReferencePreciser \<Rightarrow> c\<lparr>compositeMorePrecise := incr64 (compositeMorePrecise c)\<rparr>
         | NaivePreciser \<Rightarrow> c\<lparr>naiveMorePrecise := incr64 (naiveMorePrecise c)\<rparr>
         | EqualPrecision \<Rightarrow> c\<lparr>samePrecision := incr64 (samePrecision c)\<rparr>)) \<and>
   (1 \<le> w \<and> ((3::nat) ^ w)\<^sup>2 < 2 ^ 64 \<and> 3 ^ w \<le> reserve_limit \<and>
    (\<forall>l r. KnownBits_ok w l \<and> KnownBits_ok w r \<longrightarrow> KnownBits_ok w (mulhs l r)) \<longrightarrow>
      (\<exists>all rep.
          enumerateFromBitWidth reserve_limit w = Inr all \<and>
          testMulhsTransferFunctions reserve_limit mulhs w = Inr rep \<and>
          totalKnownBits rep = 3 ^ w \<and>
          (\<forall>p \<in> set (List.product all all). pair_verdict mulhs w p \<noteq> None) \<and>
          compositeMorePrecise (counters rep) =
            verdict_count mulhs w (List.product all all) ReferencePreciser \<and>
          naiveMorePrecise (counters rep) =
            verdict_count mulhs w (List.product all all) NaivePreciser \<and>
          samePrecision (counters rep) =
            verdict_count mulhs w (List.product all all) EqualPrecision \<and>
          incomparableResults (counters rep) =
            verdict_count mulhs w (List.product all all) Incomparable \<and>
          counter_sum (counters rep) = (3 ^ w)\<^sup>2))"
proof (intro conjI impI)
  assume "w < 2 ^ 31 \<and> KnownBits_ok w reference \<and> KnownBits_ok w naive"
  then show "compare_pair w reference naive c =
     (case verdict_of w reference naive of
        Incomparable \<Rightarrow> c\<lparr>incomparableResults := incr64 (incomparableResults c)\<rparr>
      | ReferencePreciser \<Rightarrow> c\<lparr>compositeMorePrecise := incr64 (compositeMorePrecise c)\<rparr>
      | NaivePreciser \<Rightarrow> c\<lparr>naiveMorePrecise := incr64 (naiveMorePrecise c)\<rparr>
      | EqualPrecision \<Rightarrow> c\<lparr>samePrecision := incr64 (samePrecision c)\<rparr>)"
    by (intro compare_pair_verdict) (simp_all add: KnownBits_ok_def)
next
  assume h: "1 \<le> w \<and> ((3::nat) ^ w)\<^sup>2 < 2 ^ 64 \<and> 3 ^ w \<le> reserve_limit \<and>
    (\<forall>l r. KnownBits_ok w l \<and> KnownBits_ok w r \<longrightarrow> KnownBits_ok w (mulhs l r))"
  then have small: "((3::nat) ^ w)\<^sup>2 < 2 ^ 64"
    by blast
  note fit = pairs_fit_width [OF small]
  define all where "all = map (enumerate_state w) [0..<3 ^ w mod 2 ^ 64]"
  let ?ps = "List.product all all"
  let ?rep = "\<lparr>reportBitWidth = w, totalKnownBits = 3 ^ w,
               counters = tallied mulhs w ?ps\<rparr>"
  have lim: "3 ^ w mod 2 ^ 64 \<le> reserve_limit"
    using h fit(2) by simp
  have mul: "\<forall>l r. KnownBits_ok w l \<and> KnownBits_ok w r \<longrightarrow> KnownBits_ok w (mulhs l r)"
    using h by blast
  have one: "1 \<le> w"
    using h by blast
  note run = testMulhsTransferFunctions_run [OF one fit(1) lim mul all_def, unfolded fit(2)]
  have "length all = 3 ^ w"
    unfolding all_def length_map length_upt fit(2) by simp
  then have len: "length ?ps = (3 ^ w)\<^sup>2"
    by (simp add: power2_eq_square)
  then have lt: "length ?ps < 2 ^ 64"
    using small by simp
  note ex = tallied_exact [OF lt run(3)]
  have "enumerateFromBitWidth reserve_limit w = Inr all \<and>
      testMulhsTransferFunctions reserve_limit mulhs w = Inr ?rep \<and>
      totalKnownBits ?rep = 3 ^ w \<and>
      (\<forall>p \<in> set ?ps. pair_verdict mulhs w p \<noteq> None) \<and>
      compositeMorePrecise (counters ?rep) = verdict_count mulhs w ?ps ReferencePreciser \<and>
      naiveMorePrecise (counters ?rep) = verdict_count mulhs w ?ps NaivePreciser \<and>
      samePrecision (counters ?rep) = verdict_count mulhs w ?ps EqualPrecision \<and>
      incomparableResults (counters ?rep) = verdict_count mulhs w ?ps Incomparable \<and>
      counter_sum (counters ?rep) = (3 ^ w)\<^sup>2"
    using run ex len by simp
  then show "\<exists>all rep.
          enumerateFromBitWidth reserve_limit w = Inr all \<and>
          testMulhsTransferFunctions reserve_limit mulhs w = Inr rep \<and>
          totalKnownBits rep = 3 ^ w \<and>
          (\<forall>p \<in> set (List.product all all). pair_verdict mulhs w p \<noteq> None) \<and>
          compositeMorePrecise (counters rep) =
            verdict_count mulhs w (List.product all all) ReferencePreciser \<and>
          naiveMorePrecise (counters rep) =
            verdict_count mulhs w (List.product all all) NaivePreciser \<and>
          samePrecision (counters rep) =
            verdict_count mulhs w (List.product all all) EqualPrecision \<and>
          incomparableResults (counters rep) =
            verdict_count mulhs w (List.product all all) Incomparable \<and>
          counter_sum (counters rep) = (3 ^ w)\<^sup>2"
    by (intro exI [of _ all] exI [of _ ?rep])
qed

text \<open>
  An instance: width 1, with the reference function that returns its left operand.
  The three enumerated states are "known zero", "known one" and "unknown", and
  \<^verbatim>\<open>naiveMulhs\<close> returns "known zero" on each of the nine pairs. A left operand
  "known zero" gives Equal, "known one" gives Incomparable, "unknown" gives
  NaivePreciser: three pairs each.
\<close>

theorem comparison_engine_witness:
  "(1::nat) < 2 ^ 31 \<and>
   KnownBits_ok 1 \<lparr>Zero_bits = APInt_of 1 0, One_bits = APInt_of 1 1\<rparr> \<and>
   KnownBits_ok 1 \<lparr>Zero_bits = APInt_of 1 1, One_bits = APInt_of 1 0\<rparr> \<and>
   verdict_of 1 \<lparr>Zero_bits = APInt_of 1 0, One_bits = APInt_of 1 1\<rparr>
                \<lparr>Zero_bits = APInt_of 1 1, One_bits = APInt_of 1 0\<rparr> = Incomparable \<and>
   compare_pair 1 \<lparr>Zero_bits = APInt_of 1 0, One_bits = APInt_of 1 1\<rparr>
                  \<lparr>Zero_bits = APInt_of 1 1, One_bits = APInt_of 1 0\<rparr>
       \<lparr>compositeMorePrecise = 0, naiveMorePrecise = 0,
        samePrecision = 0, incomparableResults = 0\<rparr> =
     \<lparr>compositeMorePrecise = 0, naiveMorePrecise = 0,
      samePrecision = 0, incomparableResults = 1\<rparr> \<and>
   (1::nat) \<le> 1 \<and> ((3::nat) ^ 1)\<^sup>2 < 2 ^ 64 \<and> (3::nat) ^ 1 \<le> 3 \<and>
   testMulhsTransferFunctions 3 (\<lambda>l r. l) 1 =
     Inr \<lparr>reportBitWidth = 1, totalKnownBits = 3,
          counters = \<lparr>compositeMorePrecise = 0, naiveMorePrecise = 3,
                      samePrecision = 3, incomparableResults = 3\<rparr>\<rparr>"
proof -
  let ?K = "\<lparr>Zero_bits = APInt_of 1 1, One_bits = APInt_of 1 0\<rparr>"
  let ?I = "\<lparr>Zero_bits = APInt_of 1 0, One_bits = APInt_of 1 1\<rparr>"
  let ?U = "\<lparr>Zero_bits = APInt_of 1 0, One_bits = APInt_of 1 0\<rparr>"
  let ?c0 = "\<lparr>compositeMorePrecise = 0, naiveMorePrecise = 0,
              samePrecision = 0, incomparableResults = 0\<rparr>"
  let ?ps = "List.product [?K, ?I, ?U] [?K, ?I, ?U]"
  note inst = comparison_engine [of 1 ?I ?K ?c0 3 "\<lambda>l r. l"]
  have ok: "KnownBits_ok 1 ?I" "KnownBits_ok 1 ?K"
    by (simp_all add: KnownBits_ok_def APInt_ok_def APInt_of_def)
  have b: "(1::nat) < 2 ^ 31" "(1::nat) \<le> 1" "((3::nat) ^ 1)\<^sup>2 < 2 ^ 64" "(3::nat) ^ 1 \<le> 3"
    by simp_all
  have vo: "verdict_of 1 ?K ?K = EqualPrecision" "verdict_of 1 ?I ?K = Incomparable"
    "verdict_of 1 ?U ?K = NaivePreciser"
    by (simp_all add: verdict_of_def contradicts_def precisionCount_def countPopulation_def
        testBit_def APInt_of_def bit_0)
  have "compare_pair 1 ?I ?K ?c0 =
      (case verdict_of 1 ?I ?K of
         Incomparable \<Rightarrow> ?c0\<lparr>incomparableResults := incr64 (incomparableResults ?c0)\<rparr>
       | ReferencePreciser \<Rightarrow> ?c0\<lparr>compositeMorePrecise := incr64 (compositeMorePrecise ?c0)\<rparr>
       | NaivePreciser \<Rightarrow> ?c0\<lparr>naiveMorePrecise := incr64 (naiveMorePrecise ?c0)\<rparr>
       | EqualPrecision \<Rightarrow> ?c0\<lparr>samePrecision := incr64 (samePrecision ?c0)\<rparr>)"
    using inst [THEN conjunct1] b(1) ok by blast
  then have pair: "compare_pair 1 ?I ?K ?c0 =
      \<lparr>compositeMorePrecise = 0, naiveMorePrecise = 0,
       samePrecision = 0, incomparableResults = 1\<rparr>"
    unfolding vo(2) by (simp add: incr64_def)
  have pv: "pair_verdict (\<lambda>l r. l) 1 (L, R) = Some (verdict_of 1 L ?K)"
    if "L \<in> {?K, ?I, ?U}" and "R \<in> {?K, ?I, ?U}" for L R
    unfolding pair_verdict_def fst_conv snd_conv naiveMulhs_width_1 [OF that] by simp
  have m: "?K \<in> {?K, ?I, ?U}" "?I \<in> {?K, ?I, ?U}" "?U \<in> {?K, ?I, ?U}"
    by simp_all
  note p9 = pv [OF m(1) m(1), unfolded vo(1)] pv [OF m(1) m(2), unfolded vo(1)]
    pv [OF m(1) m(3), unfolded vo(1)] pv [OF m(2) m(1), unfolded vo(2)]
    pv [OF m(2) m(2), unfolded vo(2)] pv [OF m(2) m(3), unfolded vo(2)]
    pv [OF m(3) m(1), unfolded vo(3)] pv [OF m(3) m(2), unfolded vo(3)]
    pv [OF m(3) m(3), unfolded vo(3)]
  have pvs: "map (pair_verdict (\<lambda>l r. l) 1) ?ps =
      [Some EqualPrecision, Some EqualPrecision, Some EqualPrecision,
       Some Incomparable, Some Incomparable, Some Incomparable,
       Some NaivePreciser, Some NaivePreciser, Some NaivePreciser]"
    by (simp only: List.product.simps list.map append.simps append_Nil2 p9)
  have vc: "verdict_count (\<lambda>l r. l) 1 ?ps v =
      length (filter (\<lambda>x. x = Some v)
        [Some EqualPrecision, Some EqualPrecision, Some EqualPrecision,
         Some Incomparable, Some Incomparable, Some Incomparable,
         Some NaivePreciser, Some NaivePreciser, Some NaivePreciser])" for v
    unfolding pvs [symmetric] verdict_count_def filter_map length_map comp_def by (rule refl)
  have counts: "verdict_count (\<lambda>l r. l) 1 ?ps ReferencePreciser = 0"
    "verdict_count (\<lambda>l r. l) 1 ?ps NaivePreciser = 3"
    "verdict_count (\<lambda>l r. l) 1 ?ps EqualPrecision = 3"
    "verdict_count (\<lambda>l r. l) 1 ?ps Incomparable = 3"
    unfolding vc by simp_all
  have "1 \<le> (1::nat) \<and> ((3::nat) ^ 1)\<^sup>2 < 2 ^ 64 \<and> 3 ^ 1 \<le> (3::nat) \<and>
      (\<forall>l r. KnownBits_ok 1 l \<and> KnownBits_ok 1 r \<longrightarrow> KnownBits_ok 1 l)"
    by simp
  with inst [THEN conjunct2] obtain all rep where
    r: "enumerateFromBitWidth 3 1 = Inr all"
      "testMulhsTransferFunctions 3 (\<lambda>l r. l) 1 = Inr rep"
      "totalKnownBits rep = 3 ^ 1"
      "compositeMorePrecise (counters rep) =
         verdict_count (\<lambda>l r. l) 1 (List.product all all) ReferencePreciser"
      "naiveMorePrecise (counters rep) =
         verdict_count (\<lambda>l r. l) 1 (List.product all all) NaivePreciser"
      "samePrecision (counters rep) =
         verdict_count (\<lambda>l r. l) 1 (List.product all all) EqualPrecision"
      "incomparableResults (counters rep) =
         verdict_count (\<lambda>l r. l) 1 (List.product all all) Incomparable"
    by blast
  from r(1) have all: "all = [?K, ?I, ?U]"
    unfolding enumerate_width_1 by simp
  have w: "reportBitWidth rep = 1"
    using r(2) testMulhsTransferFunctions_returns [of 1 3 "\<lambda>l r. l"] by auto
  have "counters rep = \<lparr>compositeMorePrecise = 0, naiveMorePrecise = 3,
      samePrecision = 3, incomparableResults = 3\<rparr>"
    using r(4-7) unfolding all counts by simp
  with r(3) w have "rep = \<lparr>reportBitWidth = 1, totalKnownBits = 3,
      counters = \<lparr>compositeMorePrecise = 0, naiveMorePrecise = 3,
                  samePrecision = 3, incomparableResults = 3\<rparr>\<rparr>"
    by simp
  with r(2) have run: "testMulhsTransferFunctions 3 (\<lambda>l r. l) 1 =
      Inr \<lparr>reportBitWidth = 1, totalKnownBits = 3,
           counters = \<lparr>compositeMorePrecise = 0, naiveMorePrecise = 3,
                       samePrecision = 3, incomparableResults = 3\<rparr>\<rparr>"
    by simp
  from b(1) ok vo(2) pair b(2-4) run show ?thesis
    by (intro conjI)
qed

text \<open>
  C6 as stated puts no bound on the width. At width 21 there are \<open>3 ^ 42\<close> pairs,
  more than four 64-bit counters can add up to: with room for the \<open>3 ^ 21\<close> states
  the run returns, and the sum of its counters stays below the number of pairs.
\<close>

theorem comparison_engine_counterexample:
  "\<not> isl (testMulhsTransferFunctions 10460353203 (mulhs_unknown 21) 21) \<and>
   totalKnownBits (projr (testMulhsTransferFunctions 10460353203 (mulhs_unknown 21) 21)) =
     3 ^ 21 \<and>
   counter_sum (counters (projr (testMulhsTransferFunctions 10460353203 (mulhs_unknown 21) 21)))
     < (3 ^ 21)\<^sup>2"
proof -
  define all where "all = map (enumerate_state 21) [0..<3 ^ 21 mod 2 ^ 64]"
  have b: "(1::nat) \<le> 21" "(21::nat) < 64" "(3::nat) ^ 21 mod 2 ^ 64 \<le> 10460353203"
    by simp_all
  have mul: "\<forall>l r. KnownBits_ok 21 l \<and> KnownBits_ok 21 r \<longrightarrow>
      KnownBits_ok 21 (mulhs_unknown 21 l r)"
    by (simp add: mulhs_unknown_def KnownBits_of_ok)
  note run = testMulhsTransferFunctions_run(2) [OF b mul all_def]
  have "counter_sum (tallied (mulhs_unknown 21) 21 (List.product all all)) < 4 * 2 ^ 64"
    by (rule tallied_bound)
  also have "\<dots> < ((3::nat) ^ 21)\<^sup>2"
    by simp
  finally show ?thesis
    by (simp add: run)
qed

section \<open>The claim about the command line\<close>










end
